theory Spec2Isabelle
  imports Complex_Main "HOL-Library.Char_ord" "HOL-Library.List_Lexorder" "HOL-Library.Log_Nat"
begin

section \<open>Android component test generator\<close>

text \<open>
  A shallow embedding of \<^verbatim>\<open>tools/android_component_test_generator.py\<close>.
  Python strings are lists of characters; the characters are the code points below 256.
\<close>

subsection \<open>Components\<close>

text \<open>
  The dataclass \<^verbatim>\<open>Component\<close>. Its field \<^verbatim>\<open>type\<close> is a Python string, and stays one.
  A path (\<^verbatim>\<open>pathlib.Path\<close> on a POSIX system) is its anchor (empty, one slash, or two
  slashes) and the list of its parts after the anchor.
\<close>

record path =
  anchor :: string
  parts :: "string list"

record Component =
  name :: string
  package :: string
  file_path :: path
  type :: string

definition qualified_name :: "Component \<Rightarrow> string" where
  "qualified_name c = (if package c \<noteq> [] then package c @ ''.'' @ name c else name c)"

definition test_class_name :: "Component \<Rightarrow> string" where
  "test_class_name c = name c @ ''Test''"


subsection \<open>Paths\<close>

text \<open>
  \<^verbatim>\<open>str.split(sep)\<close> for a separator of one character: the pieces between the
  separators, empty pieces kept.
\<close>

fun split_on :: "char \<Rightarrow> string \<Rightarrow> string list" where
  "split_on sep [] = [[]]"
| "split_on sep (x # xs) =
     (if x = sep then [] # split_on sep xs
      else (case split_on sep xs of [] \<Rightarrow> [[x]] | y # ys \<Rightarrow> (x # y) # ys))"

text \<open>
  Parsing one string into a path: a leading slash makes it absolute (exactly two leading
  slashes are kept as they are), and empty segments and single dots are dropped.
\<close>

definition path_of_str :: "string \<Rightarrow> path" where
  "path_of_str s =
     \<lparr>anchor = (if take 2 s = ''//'' \<and> take 3 s \<noteq> ''///'' then ''//''
                else if take 1 s = ''/'' then ''/'' else ''''),
      parts = filter (\<lambda>x. x \<noteq> [] \<and> x \<noteq> ''.'') (split_on CHR ''/'' s)\<rparr>"

text \<open>The operator \<^verbatim>\<open>/\<close>: an absolute right operand replaces the left one.\<close>

definition joinpath :: "path \<Rightarrow> path \<Rightarrow> path" where
  "joinpath p q =
     (if anchor q \<noteq> [] then q else \<lparr>anchor = anchor p, parts = parts p @ parts q\<rparr>)"

text \<open>\<^verbatim>\<open>Path(*args)\<close>: the arguments joined from left to right; no argument is the empty path.\<close>

definition Path :: "string list \<Rightarrow> path" where
  "Path args = foldl joinpath \<lparr>anchor = [], parts = []\<rparr> (map path_of_str args)"

fun str_join :: "'a list \<Rightarrow> 'a list list \<Rightarrow> 'a list" where
  "str_join sep [] = []"
| "str_join sep [x] = x"
| "str_join sep (x # y # ys) = x @ sep @ str_join sep (y # ys)"

definition path_str :: "path \<Rightarrow> string" where
  "path_str p =
     (if anchor p = [] \<and> parts p = [] then ''.'' else anchor p @ str_join ''/'' (parts p))"

definition path_name :: "path \<Rightarrow> string" where
  "path_name p = (if parts p = [] then [] else last (parts p))"

text \<open>\<^verbatim>\<open>str.rfind\<close> of one character: the last index where it stands, or -1.\<close>

fun rfind :: "char \<Rightarrow> string \<Rightarrow> int" where
  "rfind ch [] = -1"
| "rfind ch (x # xs) =
     (let r = rfind ch xs in if 0 \<le> r then r + 1 else if x = ch then 0 else -1)"

definition suffix :: "path \<Rightarrow> string" where
  "suffix p =
     (let n = path_name p; i = rfind CHR ''.'' n
      in if 0 < i \<and> i < int (length n) - 1 then drop (nat i) n else [])"

definition parent :: "path \<Rightarrow> path" where
  "parent p = p\<lparr>parts := butlast (parts p)\<rparr>"

definition test_path :: "Component \<Rightarrow> path" where
  "test_path c =
     (let package_dir = (if package c \<noteq> [] then Path (split_on CHR ''.'' (package c)) else Path [])
      in joinpath (joinpath (Path [''app/src/test/java'']) package_dir)
           (path_of_str (test_class_name c @ ''.java'')))"


subsection \<open>Regular expressions\<close>

text \<open>
  The patterns of the source use a small part of Python's \<^verbatim>\<open>re\<close>: literals, the classes
  \<^verbatim>\<open>\w\<close>, \<^verbatim>\<open>\s\<close>, \<^verbatim>\<open>.\<close> (under \<^verbatim>\<open>re.S\<close>: any character) and \<^verbatim>\<open>[\w\.]\<close>, greedy and
  lazy repetition of a class, alternation, groups, \<^verbatim>\<open>\b\<close> and \<^verbatim>\<open>^\<close> (under \<^verbatim>\<open>re.M\<close>).
  The matcher is the backtracking matcher of \<^verbatim>\<open>re\<close>: a greedy repetition tries the
  longest run first, a lazy one the shortest, an alternation its left branch first, and
  what follows an expression is its continuation.
\<close>

datatype cls = Word | Space | AnyChar | WordOrDot

definition is_word :: "char \<Rightarrow> bool" where
  "is_word c =
     (let n = (of_char c :: nat)
      in (48 \<le> n \<and> n \<le> 57) \<or> (65 \<le> n \<and> n \<le> 90) \<or> n = 95 \<or> (97 \<le> n \<and> n \<le> 122)
         \<or> n = 170 \<or> n = 178 \<or> n = 179 \<or> n = 181 \<or> n = 185 \<or> n = 186
         \<or> (188 \<le> n \<and> n \<le> 190) \<or> (192 \<le> n \<and> n \<le> 214) \<or> (216 \<le> n \<and> n \<le> 246)
         \<or> 248 \<le> n)"

definition is_space :: "char \<Rightarrow> bool" where
  "is_space c =
     (let n = (of_char c :: nat)
      in (9 \<le> n \<and> n \<le> 13) \<or> (28 \<le> n \<and> n \<le> 32) \<or> n = 133 \<or> n = 160)"

fun cls_ok :: "cls \<Rightarrow> char \<Rightarrow> bool" where
  "cls_ok Word c = is_word c"
| "cls_ok Space c = is_space c"
| "cls_ok AnyChar c = True"
| "cls_ok WordOrDot c = (is_word c \<or> c = CHR ''.'')"

datatype rx =
    Lit string
  | Rep bool cls nat
  | Seq rx rx
  | Alt rx rx
  | Grp nat rx
  | WordB
  | Bol

type_synonym groups = "(nat \<times> string) list"

text \<open>
  A continuation takes the character before the position (if any), the rest of the text
  and the groups captured so far.
\<close>

type_synonym 'a cont = "char option \<Rightarrow> string \<Rightarrow> groups \<Rightarrow> 'a option"

fun rep_greedy :: "cls \<Rightarrow> nat \<Rightarrow> 'a cont \<Rightarrow> 'a cont" where
  "rep_greedy cl n k p [] g = (if n = 0 then k p [] g else None)"
| "rep_greedy cl n k p (x # xs) g =
     (case (if cls_ok cl x then rep_greedy cl (n - 1) k (Some x) xs g else None) of
        Some r \<Rightarrow> Some r
      | None \<Rightarrow> if n = 0 then k p (x # xs) g else None)"

fun rep_lazy :: "cls \<Rightarrow> nat \<Rightarrow> 'a cont \<Rightarrow> 'a cont" where
  "rep_lazy cl n k p [] g = (if n = 0 then k p [] g else None)"
| "rep_lazy cl n k p (x # xs) g =
     (case (if n = 0 then k p (x # xs) g else None) of
        Some r \<Rightarrow> Some r
      | None \<Rightarrow> if cls_ok cl x then rep_lazy cl (n - 1) k (Some x) xs g else None)"

definition word_before :: "char option \<Rightarrow> bool" where
  "word_before p = (case p of None \<Rightarrow> False | Some c \<Rightarrow> is_word c)"

definition word_after :: "string \<Rightarrow> bool" where
  "word_after s = (case s of [] \<Rightarrow> False | c # _ \<Rightarrow> is_word c)"

primrec rmatch :: "rx \<Rightarrow> 'a cont \<Rightarrow> 'a cont" where
  "rmatch (Lit l) k =
     (\<lambda>p s g. if take (length l) s = l
               then k (if l = [] then p else Some (last l)) (drop (length l) s) g
               else None)"
| "rmatch (Rep greedy cl n) k = (if greedy then rep_greedy cl n k else rep_lazy cl n k)"
| "rmatch (Seq a b) k = rmatch a (rmatch b k)"
| "rmatch (Alt a b) k =
     (\<lambda>p s g. case rmatch a k p s g of Some r \<Rightarrow> Some r | None \<Rightarrow> rmatch b k p s g)"
| "rmatch (Grp i r) k =
     (\<lambda>p s g. rmatch r (\<lambda>p' s' g'. k p' s' ((i, take (length s - length s') s) # g')) p s g)"
| "rmatch WordB k = (\<lambda>p s g. if word_before p \<noteq> word_after s then k p s g else None)"
| "rmatch Bol k = (\<lambda>p s g. if p = None \<or> p = Some CHR ''\<newline>'' then k p s g else None)"

text \<open>\<^verbatim>\<open>pattern.match(text, pos)\<close>: the groups of the match that starts at \<^verbatim>\<open>pos\<close>.\<close>

definition match_at :: "rx \<Rightarrow> string \<Rightarrow> nat \<Rightarrow> groups option" where
  "match_at r text i =
     rmatch r (\<lambda>p s g. Some g) (if i = 0 then None else Some (text ! (i - 1))) (drop i text) []"

fun first_match :: "(nat \<Rightarrow> 'a option) \<Rightarrow> nat list \<Rightarrow> 'a option" where
  "first_match f [] = None"
| "first_match f (i # is) = (case f i of Some m \<Rightarrow> Some m | None \<Rightarrow> first_match f is)"

text \<open>\<^verbatim>\<open>pattern.search(text)\<close>: the match at the first position that has one.\<close>

definition search :: "rx \<Rightarrow> string \<Rightarrow> groups option" where
  "search r text = first_match (match_at r text) [0..<Suc (length text)]"

text \<open>
  \<^verbatim>\<open>match.group(i)\<close>. In the patterns below group 1 stands outside every alternation, so it
  takes part in every match (shown below for every pattern of the source); the empty
  string stands for a group that took no part.
\<close>

definition match_group :: "nat \<Rightarrow> groups \<Rightarrow> string" where
  "match_group i m = (case map_of m i of Some s \<Rightarrow> s | None \<Rightarrow> [])"

text \<open>The numbers of the groups of an expression.\<close>

primrec grp_ids :: "rx \<Rightarrow> nat set" where
  "grp_ids (Lit l) = {}"
| "grp_ids (Rep greedy cl n) = {}"
| "grp_ids (Seq a b) = grp_ids a \<union> grp_ids b"
| "grp_ids (Alt a b) = grp_ids a \<union> grp_ids b"
| "grp_ids (Grp i r) = insert i (grp_ids r)"
| "grp_ids WordB = {}"
| "grp_ids Bol = {}"

definition seqs :: "rx list \<Rightarrow> rx" where
  "seqs rs = foldr Seq (butlast rs) (last rs)"

definition class_pattern :: "rx \<Rightarrow> rx" where
  "class_pattern supertype =
     seqs [WordB, Lit ''class'', Rep True Space 1, Grp 1 (Rep True Word 1), Rep False AnyChar 0,
           Grp 2 (Alt (Lit ''extends'') (Lit '':'')), Rep True Space 1, Rep False WordOrDot 0,
           supertype, WordB]"

definition COMPONENT_PATTERNS :: "(string \<times> rx) list" where
  "COMPONENT_PATTERNS =
     [(''Activity'', class_pattern (Grp 3 (Seq (Rep True Word 0) (Lit ''Activity'')))),
      (''Service'', class_pattern (Grp 3 (Seq (Rep True Word 0) (Lit ''Service'')))),
      (''BroadcastReceiver'', class_pattern (Lit ''BroadcastReceiver'')),
      (''ViewModel'', class_pattern (Lit ''ViewModel''))]"

definition package_pattern :: rx where
  "package_pattern =
     seqs [Bol, Rep True Space 0, Lit ''package'', Rep True Space 1, Grp 1 (Rep True WordOrDot 1)]"

definition SUPPORTED_EXTENSIONS :: "string set" where
  "SUPPORTED_EXTENSIONS = {''.java'', ''.kt''}"

subsection \<open>The file system and the console\<close>

text \<open>
  The world a run sees: the working directory (an absolute path), the files and
  directories by resolved path, and the lines printed so far. A file holds its decoded
  characters as they are stored. Permissions, links and \<^verbatim>\<open>..\<close> are left out.
\<close>

datatype node = File string | Dir

datatype error = ValueError | FileNotFoundError | FileExistsError | IsADirectoryError
  | NotADirectoryError | ZeroDivisionError

record world =
  cwd :: path
  nodes :: "path \<rightharpoonup> node"
  stdout :: "string list"

definition resolve :: "world \<Rightarrow> path \<Rightarrow> path" where
  "resolve w p = (if anchor p = [] then joinpath (cwd w) p else p)"

definition print :: "string \<Rightarrow> world \<Rightarrow> world" where
  "print line w = w\<lparr>stdout := stdout w @ [line]\<rparr>"

text \<open>What stands at a resolved path; the root directory is always there.\<close>

definition node_at :: "world \<Rightarrow> path \<Rightarrow> node option" where
  "node_at w q = (if parts q = [] then Some Dir else nodes w q)"

definition is_dir :: "world \<Rightarrow> path \<Rightarrow> bool" where
  "is_dir w p = (node_at w (resolve w p) = Some Dir)"

definition is_file :: "world \<Rightarrow> path \<Rightarrow> bool" where
  "is_file w p = (case node_at w (resolve w p) of Some (File t) \<Rightarrow> True | _ \<Rightarrow> False)"

definition exists :: "world \<Rightarrow> path \<Rightarrow> bool" where
  "exists w p = (node_at w (resolve w p) \<noteq> None)"

text \<open>
  Reading in text mode translates the line ends: a carriage return, with a line feed
  right after it or alone, becomes one line feed. The flag says that the character
  before was a carriage return.
\<close>

fun translate_newlines :: "bool \<Rightarrow> string \<Rightarrow> string" where
  "translate_newlines after_cr [] = []"
| "translate_newlines after_cr (x # xs) =
     (if x = CHR 0x0D then CHR ''\<newline>'' # translate_newlines True xs
      else if x = CHR ''\<newline>'' \<and> after_cr then translate_newlines False xs
      else x # translate_newlines False xs)"

definition universal_newlines :: "string \<Rightarrow> string" where
  "universal_newlines s = translate_newlines False s"

definition read_text :: "world \<Rightarrow> path \<Rightarrow> error + string" where
  "read_text w p =
     (case node_at w (resolve w p) of
        Some (File t) \<Rightarrow> Inr (universal_newlines t)
      | Some Dir \<Rightarrow> Inl IsADirectoryError
      | None \<Rightarrow> Inl FileNotFoundError)"

text \<open>
  \<^verbatim>\<open>write_text\<close> opens the file for writing: an existing file is replaced, a new one
  needs its directory. On a POSIX system writing in text mode stores the characters as
  they are.
\<close>

definition write_text :: "world \<Rightarrow> path \<Rightarrow> string \<Rightarrow> error + world" where
  "write_text w p content =
     (let q = resolve w p
      in case node_at w q of
           Some Dir \<Rightarrow> Inl IsADirectoryError
         | Some (File t) \<Rightarrow> Inr (w\<lparr>nodes := (nodes w)(q \<mapsto> File content)\<rparr>)
         | None \<Rightarrow>
             (case node_at w (parent q) of
                Some Dir \<Rightarrow> Inr (w\<lparr>nodes := (nodes w)(q \<mapsto> File content)\<rparr>)
              | Some (File t) \<Rightarrow> Inl NotADirectoryError
              | None \<Rightarrow> Inl FileNotFoundError))"

text \<open>\<^verbatim>\<open>os.mkdir\<close>: one new directory inside an existing one.\<close>

definition os_mkdir :: "world \<Rightarrow> path \<Rightarrow> error + world" where
  "os_mkdir w p =
     (let q = resolve w p
      in if node_at w q \<noteq> None then Inl FileExistsError
         else case node_at w (parent q) of
                Some Dir \<Rightarrow> Inr (w\<lparr>nodes := (nodes w)(q \<mapsto> Dir)\<rparr>)
              | Some (File t) \<Rightarrow> Inl NotADirectoryError
              | None \<Rightarrow> Inl FileNotFoundError)"

text \<open>
  \<^verbatim>\<open>Path.mkdir(parents=True, exist_ok=True)\<close>, by recursion on the parts of the path from
  the last one: a missing parent is made first, and an error other than a missing parent
  is passed on unless the path is a directory already.
\<close>

fun mkdir_rev :: "world \<Rightarrow> string \<Rightarrow> string list \<Rightarrow> error + world" where
  "mkdir_rev w a [] =
     (case os_mkdir w \<lparr>anchor = a, parts = []\<rparr> of
        Inr w' \<Rightarrow> Inr w'
      | Inl e \<Rightarrow> if e \<noteq> FileNotFoundError \<and> is_dir w \<lparr>anchor = a, parts = []\<rparr> then Inr w else Inl e)"
| "mkdir_rev w a (x # rs) =
     (let p = \<lparr>anchor = a, parts = rev (x # rs)\<rparr>
      in case os_mkdir w p of
           Inr w' \<Rightarrow> Inr w'
         | Inl e \<Rightarrow>
             if e = FileNotFoundError
             then (case mkdir_rev w a rs of
                     Inl e' \<Rightarrow> Inl e'
                   | Inr w' \<Rightarrow>
                       (case os_mkdir w' p of
                          Inr w'' \<Rightarrow> Inr w''
                        | Inl e' \<Rightarrow>
                            if e' \<noteq> FileNotFoundError \<and> is_dir w' p then Inr w' else Inl e'))
             else if is_dir w p then Inr w else Inl e)"

definition mkdir :: "world \<Rightarrow> path \<Rightarrow> error + world" where
  "mkdir w p = mkdir_rev w (anchor p) (rev (parts p))"

text \<open>
  \<^verbatim>\<open>PurePath.relative_to\<close>: the parts of a path after those of another one, which must
  be its beginning, anchor included.
\<close>

definition abs_parts :: "path \<Rightarrow> string list" where
  "abs_parts p = (if anchor p \<noteq> [] then [[], anchor p] @ parts p else parts p)"

definition relative_to :: "path \<Rightarrow> path \<Rightarrow> error + path" where
  "relative_to p other =
     (let n = length (abs_parts other)
      in if (if n = 0 then anchor p \<noteq> [] else take n (abs_parts p) \<noteq> abs_parts other)
         then Inl ValueError
         else Inr \<lparr>anchor = [], parts = drop n (abs_parts p)\<rparr>)"

subsection \<open>The classifier\<close>

fun scan_patterns ::
  "(string \<times> rx) list \<Rightarrow> string \<Rightarrow> string \<Rightarrow> path \<Rightarrow> Component list \<Rightarrow> Component list" where
  "scan_patterns [] text pkg p components = components"
| "scan_patterns ((component_type, pattern) # rest) text pkg p components =
     (case search pattern text of
        None \<Rightarrow> scan_patterns rest text pkg p components
      | Some m \<Rightarrow>
          scan_patterns rest text pkg p
            (components @ [\<lparr>name = match_group 1 m, package = pkg, file_path = p, type = component_type\<rparr>]))"

definition extract_package :: "string \<Rightarrow> string" where
  "extract_package text = (case search package_pattern text of Some m \<Rightarrow> match_group 1 m | None \<Rightarrow> [])"

definition parse_component_file :: "world \<Rightarrow> path \<Rightarrow> world \<times> (error + Component list)" where
  "parse_component_file w p =
     (if suffix p \<notin> SUPPORTED_EXTENSIONS \<or> \<not> is_file w p
      then (print (''Skipping unsupported or missing file: '' @ path_str p) w, Inr [])
      else case read_text w p of
             Inl e \<Rightarrow> (w, Inl e)
           | Inr text \<Rightarrow> (w, Inr (scan_patterns COMPONENT_PATTERNS text (extract_package text) p [])))"

subsection \<open>The scaffold generator\<close>

text \<open>
  \<^verbatim>\<open>sorted(set(imports))\<close>: a Python set yields its elements in an order that depends on
  the hashes of the run. The parameter \<open>set_order\<close> is that order: the elements of the
  list, each once. The result is sorted by code points.
\<close>

definition set_iteration :: "(string list \<Rightarrow> string list) \<Rightarrow> bool" where
  "set_iteration set_order \<longleftrightarrow> (\<forall>xs. distinct (set_order xs) \<and> set (set_order xs) = set xs)"

definition generate_imports :: "(string list \<Rightarrow> string list) \<Rightarrow> Component \<Rightarrow> string list" where
  "generate_imports set_order component =
     (let imports = [''org.junit.Test'', ''org.junit.runner.RunWith'', ''org.junit.Assert'',
                     ''org.mockito.Mock'', ''org.mockito.Mockito'',
                     ''org.mockito.junit.MockitoJUnitRunner''];
          imports = (if type component \<in> {''Activity'', ''Service'', ''BroadcastReceiver''}
                     then imports @ [''android.content.Context'', ''android.content.Intent'',
                                     ''android.util.Log'']
                     else imports);
          imports = (if type component = ''BroadcastReceiver''
                     then imports @ [''android.content.BroadcastReceiver''] else imports);
          imports = (if type component = ''Activity''
                     then imports @ [''android.app.Activity''] else imports);
          imports = (if type component = ''Service''
                     then imports @ [''android.app.Service''] else imports);
          imports = (if type component = ''ViewModel''
                     then imports @ [''androidx.lifecycle.ViewModel'',
                                     ''androidx.lifecycle.SavedStateHandle'']
                     else imports);
          imports = imports @ [qualified_name component]
      in sort (set_order imports))"

definition generate_valid_invalid_tests :: "Component \<Rightarrow> string" where
  "generate_valid_invalid_tests component =
     (let valid_test =
            (''\<newline>'' @
              ''    @Test\<newline>'' @
              ''    public void resolvesClassByName() throws Exception {\<newline>'' @
              ''        Class<?> clazz = Class.forName(\"'') @
            qualified_name component @
            (''\");\<newline>'' @
              ''        Assert.assertNotNull(clazz);\<newline>'' @
              ''    }\<newline>'' @
              ''    '');
          invalid_test =
            (''\<newline>'' @
              ''    @Test(expected = ClassNotFoundException.class)\<newline>'' @
              ''    public void invalidClassNameThrows() throws Exception {\<newline>'' @
              ''        Class.forName(\"'') @
            qualified_name component @
            (''_Missing\");\<newline>'' @
              ''    }\<newline>'' @
              ''    '')
      in valid_test @ ''\<newline>'' @ invalid_test)"

definition generate_mockito_test :: "Component \<Rightarrow> string" where
  "generate_mockito_test component =
     (let target_name = name component;
          base_mock = target_name @ '' instance = Mockito.mock('' @ target_name @
                      ''.class, Mockito.withSettings().lenient());'';
          context_setup =
            (if type component \<in> {''Activity'', ''Service'', ''BroadcastReceiver''}
             then ''Mockito.when(context.getApplicationContext()).thenReturn(context);''
             else []);
          collaborator =
            (if type component = ''ViewModel''
             then ''SavedStateHandle handle = new SavedStateHandle();''
             else ''Intent intent = Mockito.mock(Intent.class);'')
      in (''\<newline>'' @
              ''    @Test\<newline>'' @
              ''    public void canCreateLenientMockitoDouble() {\<newline>'' @
              ''        '') @
         base_mock @ (''\<newline>'' @
              ''        '') @
         context_setup @ (''\<newline>'' @
              ''        '') @
         collaborator @
         (''\<newline>'' @
              ''        Assert.assertNotNull(instance);\<newline>'' @
              ''    }\<newline>'' @
              ''    ''))"

definition test_body :: "Component \<Rightarrow> string" where
  "test_body component =
     str_join ''\<newline>'' [generate_valid_invalid_tests component, generate_mockito_test component]"

definition test_class :: "(string list \<Rightarrow> string list) \<Rightarrow> Component \<Rightarrow> string" where
  "test_class set_order component =
     (let imports = str_join ''\<newline>''
            (map (\<lambda>item. ''import '' @ item @ '';'') (generate_imports set_order component));
          body = test_body component;
          package_line = (if package component \<noteq> [] then ''package '' @ package component @ '';''
                          else []);
          mocks = (''\<newline>'' @
              ''    @Mock Context context;\<newline>'' @
              ''    '');
          mocks = (if type component = ''BroadcastReceiver'' then mocks @ (''    @Mock Intent intent;\<newline>'')
                   else if type component = ''Activity'' then mocks @ (''    @Mock Intent intent;\<newline>'')
                   else if type component = ''Service'' then mocks @ (''    @Mock Intent intent;\<newline>'')
                   else if type component = ''ViewModel''
                   then (''    @Mock SavedStateHandle savedStateHandle;\<newline>'')
                   else mocks)
      in ''\<newline>'' @ package_line @ ''\<newline>\<newline>'' @ imports @
         (''\<newline>'' @
              ''\<newline>'' @
              ''@RunWith(MockitoJUnitRunner.class)\<newline>'' @
              ''public class '') @
         test_class_name component @ '' {\<newline>'' @ mocks @ ''\<newline>'' @ body @
         ''\<newline>}\<newline>'')"

subsection \<open>The writer\<close>

definition ensure_directory :: "world \<Rightarrow> path \<Rightarrow> error + world" where
  "ensure_directory w p = mkdir w (parent p)"

text \<open>
  The loop of \<^verbatim>\<open>write_tests\<close>, with the list \<^verbatim>\<open>written\<close> so far. An exception ends the
  run with the world as it is at that moment.
\<close>

fun write_tests_loop ::
  "(string list \<Rightarrow> string list) \<Rightarrow> Component list \<Rightarrow> bool \<Rightarrow> path list \<Rightarrow> world
     \<Rightarrow> world \<times> (error + path list)" where
  "write_tests_loop set_order [] force written w = (w, Inr written)"
| "write_tests_loop set_order (component # components) force written w =
     (let destination = test_path component
      in case ensure_directory w destination of
           Inl e \<Rightarrow> (w, Inl e)
         | Inr w1 \<Rightarrow>
             (let content = test_class set_order component
              in if exists w1 destination \<and> \<not> force
                 then write_tests_loop set_order components force written
                        (print (''Skipping '' @ path_str destination @
                                '' (already exists). Use --force to overwrite.'') w1)
                 else case write_text w1 destination content of
                        Inl e \<Rightarrow> (w1, Inl e)
                      | Inr w2 \<Rightarrow>
                          (let written = written @ [destination]
                           in case relative_to destination (cwd w2) of
                                Inl e \<Rightarrow> (w2, Inl e)
                              | Inr rel \<Rightarrow>
                                  write_tests_loop set_order components force written
                                    (print (''Created '' @ path_str rel) w2))))"

definition write_tests ::
  "(string list \<Rightarrow> string list) \<Rightarrow> Component list \<Rightarrow> bool \<Rightarrow> world
     \<Rightarrow> world \<times> (error + path list)" where
  "write_tests set_order components force w = write_tests_loop set_order components force [] w"

subsection \<open>The build file\<close>

definition JACOCO_SNIPPET :: string where
  "JACOCO_SNIPPET =
       (''\<newline>'' @
              ''// Added by android_component_test_generator.py\<newline>'' @
              ''plugins { id 'jacoco' }\<newline>'' @
              ''\<newline>'' @
              ''jacoco {\<newline>'' @
              ''    toolVersion = \"0.8.10\"\<newline>'' @
              ''}\<newline>'' @
              ''\<newline>'' @
              ''tasks.withType(Test) {\<newline>'' @
              ''    finalizedBy jacocoTestReport\<newline>'' @
              ''}\<newline>'' @
              ''\<newline>'' @
              ''jacocoTestReport {\<newline>'' @
              ''    dependsOn test\<newline>'' @
              ''    reports {\<newline>'' @
              ''        xml.required = true\<newline>'' @
              ''        csv.required = false\<newline>'' @
              ''        html.required = true\<newline>'' @
              ''    }\<newline>'' @
              ''}\<newline>'')"

text \<open>\<^verbatim>\<open>needle in haystack\<close> for strings.\<close>

fun contains :: "string \<Rightarrow> string \<Rightarrow> bool" where
  "contains needle [] = (needle = [])"
| "contains needle (x # xs) = (take (length needle) (x # xs) = needle \<or> contains needle xs)"

definition rstrip :: "string \<Rightarrow> string" where
  "rstrip s = rev (dropWhile is_space (rev s))"

definition ensure_jacoco :: "world \<Rightarrow> path \<Rightarrow> world \<times> (error + unit)" where
  "ensure_jacoco w build_gradle =
     (if \<not> exists w build_gradle
      then (print (''Gradle file '' @ path_str build_gradle @
                   '' not found; skipping JaCoCo integration.'') w, Inr ())
      else case read_text w build_gradle of
             Inl e \<Rightarrow> (w, Inl e)
           | Inr content \<Rightarrow>
               if contains ''jacocoTestReport'' content \<and> contains ''jacoco'' content
               then (print ''JaCoCo configuration already detected.'' w, Inr ())
               else (let updated = rstrip content @ ''\<newline>\<newline>'' @ JACOCO_SNIPPET
                     in case write_text w build_gradle updated of
                          Inl e \<Rightarrow> (w, Inl e)
                        | Inr w' \<Rightarrow>
                            (print (''Appended JaCoCo configuration to '' @ path_str build_gradle) w',
                             Inr ())))"

subsection \<open>The coverage summary\<close>

text \<open>
  \<^verbatim>\<open>covered\<close> and \<^verbatim>\<open>missed\<close> are Python floats, that is IEEE 754 binary64 values: a
  finite value is a sign and a magnitude (\<^verbatim>\<open>-0.0\<close> is \<open>Finite True 0\<close>), and there are
  the two infinities and NaN. The sign \<open>True\<close> is the negative one.
\<close>

datatype pyfloat = Finite bool rat | Infinity bool | NaN

text \<open>
  A float operation computes the exact result and rounds it to the nearest double,
  ties to the even one. \<open>ilog2 x\<close> is the exponent \<open>e\<close> of the binade
  \<open>2\<^sup>e \<le> x < 2\<^sup>e\<^sup>+\<^sup>1\<close> of a positive \<open>x\<close>, found with the bit length of an integer;
  the doubles of that binade are the multiples of \<open>ulp x\<close>, with 53 significant bits
  and never finer than \<open>2\<^sup>-\<^sup>1\<^sup>0\<^sup>7\<^sup>4\<close>, the spacing of the subnormal numbers. A rounded
  magnitude of \<open>2\<^sup>1\<^sup>0\<^sup>2\<^sup>4\<close> or more overflows to an infinity.
\<close>

definition round_half_even :: "rat \<Rightarrow> int" where
  "round_half_even y =
     (let n = \<lfloor>y\<rfloor>; f = y - of_int n
      in if f < 1 / 2 then n else if 1 / 2 < f then n + 1 else if even n then n else n + 1)"

definition ilog2 :: "rat \<Rightarrow> int" where
  "ilog2 x = (if 1 \<le> x then bitlen \<lfloor>x\<rfloor> - 1 else - bitlen (\<lceil>1 / x\<rceil> - 1))"

definition ulp :: "rat \<Rightarrow> rat" where
  "ulp x = 2 powi max (ilog2 x - 52) (- 1074)"

definition rnd :: "rat \<Rightarrow> rat" where
  "rnd x = (if x = 0 then 0 else of_int (round_half_even (x / ulp x)) * ulp x)"

definition to_float :: "bool \<Rightarrow> rat \<Rightarrow> pyfloat" where
  "to_float s x = (if 2 ^ 1024 \<le> rnd x then Infinity s else Finite s (rnd x))"

text \<open>
  The operations of the source: \<^verbatim>\<open>+\<close>, \<^verbatim>\<open>/\<close> (which raises \<^verbatim>\<open>ZeroDivisionError\<close> on a
  zero divisor of either sign, before anything else), \<^verbatim>\<open>*\<close>, \<^verbatim>\<open>==\<close> and \<^verbatim>\<open><=\<close>. The integer
  literals \<^verbatim>\<open>0\<close> and \<^verbatim>\<open>100\<close> of the source take part in them as the doubles
  \<open>Finite False 0\<close> and \<open>Finite False 100\<close>. \<open>is_float\<close> says that a value is one of the
  format: its magnitude is a double below \<open>2\<^sup>1\<^sup>0\<^sup>2\<^sup>4\<close>.
\<close>

definition signed :: "bool \<Rightarrow> rat \<Rightarrow> rat" where
  "signed s x = (if s then - x else x)"

fun is_float :: "pyfloat \<Rightarrow> bool" where
  "is_float (Finite s x) = (0 \<le> x \<and> rnd x = x \<and> x < 2 ^ 1024)"
| "is_float (Infinity s) = True"
| "is_float NaN = True"

fun float_add :: "pyfloat \<Rightarrow> pyfloat \<Rightarrow> pyfloat" where
  "float_add (Finite s x) (Finite s' y) =
     (let v = signed s x + signed s' y
      in if v = 0 then Finite (s \<and> s') 0 else to_float (v < 0) \<bar>v\<bar>)"
| "float_add (Finite s x) (Infinity s') = Infinity s'"
| "float_add (Infinity s) (Finite s' y) = Infinity s"
| "float_add (Infinity s) (Infinity s') = (if s = s' then Infinity s else NaN)"
| "float_add NaN b = NaN"
| "float_add a NaN = NaN"

fun float_div :: "pyfloat \<Rightarrow> pyfloat \<Rightarrow> error + pyfloat" where
  "float_div a (Finite s' y) =
     (if y = 0 then Inl ZeroDivisionError
      else case a of
             Finite s x \<Rightarrow> Inr (to_float (s \<noteq> s') (x / y))
           | Infinity s \<Rightarrow> Inr (Infinity (s \<noteq> s'))
           | NaN \<Rightarrow> Inr NaN)"
| "float_div (Finite s x) (Infinity s') = Inr (Finite (s \<noteq> s') 0)"
| "float_div (Infinity s) (Infinity s') = Inr NaN"
| "float_div NaN (Infinity s') = Inr NaN"
| "float_div a NaN = Inr NaN"

fun float_mul :: "pyfloat \<Rightarrow> pyfloat \<Rightarrow> pyfloat" where
  "float_mul (Finite s x) (Finite s' y) = to_float (s \<noteq> s') (x * y)"
| "float_mul (Finite s x) (Infinity s') = (if x = 0 then NaN else Infinity (s \<noteq> s'))"
| "float_mul (Infinity s) (Finite s' y) = (if y = 0 then NaN else Infinity (s \<noteq> s'))"
| "float_mul (Infinity s) (Infinity s') = Infinity (s \<noteq> s')"
| "float_mul NaN b = NaN"
| "float_mul a NaN = NaN"

fun float_eq :: "pyfloat \<Rightarrow> pyfloat \<Rightarrow> bool" where
  "float_eq (Finite s x) (Finite s' y) = (signed s x = signed s' y)"
| "float_eq (Infinity s) (Infinity s') = (s = s')"
| "float_eq a b = False"

fun float_le :: "pyfloat \<Rightarrow> pyfloat \<Rightarrow> bool" where
  "float_le (Finite s x) (Finite s' y) = (signed s x \<le> signed s' y)"
| "float_le (Finite s x) (Infinity s') = (\<not> s')"
| "float_le (Infinity s) (Finite s' y) = s"
| "float_le (Infinity s) (Infinity s') = (s \<or> \<not> s')"
| "float_le NaN b = False"
| "float_le a NaN = False"

record CoverageSummary =
  covered :: pyfloat
  missed :: pyfloat

definition total_cov :: "CoverageSummary \<Rightarrow> pyfloat" where
  "total_cov s = float_add (covered s) (missed s)"

definition coverage_pct :: "CoverageSummary \<Rightarrow> error + pyfloat" where
  "coverage_pct s =
     (if float_eq (total_cov s) (Finite False 0) then Inr (Finite False 0)
      else case float_div (covered s) (total_cov s) of
             Inl e \<Rightarrow> Inl e
           | Inr q \<Rightarrow> Inr (float_mul q (Finite False 100)))"

subsection \<open>Facts about line ends\<close>

lemma translate_newlines_no_cr: "CHR 0x0D \<notin> set (translate_newlines after_cr s)"
  by (induction s arbitrary: after_cr) auto

lemma universal_newlines_no_cr: "CHR 0x0D \<notin> set (universal_newlines s)"
  unfolding universal_newlines_def by (rule translate_newlines_no_cr)

lemma universal_newlines_id: "CHR 0x0D \<notin> set s \<Longrightarrow> universal_newlines s = s"
  unfolding universal_newlines_def by (induction s) auto

lemma read_text_Inr:
  "read_text w p = Inr content \<longleftrightarrow>
   (\<exists>t. node_at w (resolve w p) = Some (File t) \<and> content = universal_newlines t)"
  by (auto simp: read_text_def split: option.splits node.splits)

subsection \<open>Facts about paths\<close>

lemma split_on_absent: "sep \<notin> set s \<Longrightarrow> split_on sep s = [s]"
  by (induction s) auto

lemma split_on_subset: "\<forall>x \<in> set (split_on sep s). set x \<subseteq> set s \<and> sep \<notin> set x"
  by (induction s) (auto split: if_splits list.splits)

lemma path_of_str_noslash:
  "CHR ''/'' \<notin> set s \<Longrightarrow>
   path_of_str s = \<lparr>anchor = [], parts = (if s = [] \<or> s = ''.'' then [] else [s])\<rparr>"
  by (cases s) (auto simp: path_of_str_def split_on_absent)

lemma foldl_joinpath_rel:
  "\<forall>q \<in> set qs. anchor q = [] \<Longrightarrow>
   foldl joinpath p qs = \<lparr>anchor = anchor p, parts = parts p @ concat (map parts qs)\<rparr>"
  by (induction qs arbitrary: p) (auto simp: joinpath_def)

lemma Path_segments:
  assumes "\<forall>x \<in> set xs. CHR ''/'' \<notin> set x \<and> CHR ''.'' \<notin> set x"
  shows "Path xs = \<lparr>anchor = [], parts = filter (\<lambda>x. x \<noteq> []) xs\<rparr>"
proof -
  have a: "\<forall>q \<in> set (map path_of_str xs). anchor q = []"
    using assms by (auto simp: path_of_str_noslash)
  have b: "concat (map parts (map path_of_str xs)) = filter (\<lambda>x. x \<noteq> []) xs"
    using assms by (induction xs) (auto simp: path_of_str_noslash)
  show ?thesis unfolding Path_def using foldl_joinpath_rel [OF a] b by simp
qed

lemma test_path_parts:
  assumes "CHR ''/'' \<notin> set (package c)" and "CHR ''/'' \<notin> set (name c)"
  shows "test_path c =
     \<lparr>anchor = [], parts = [''app'', ''src'', ''test'', ''java'']
        @ filter (\<lambda>x. x \<noteq> []) (split_on CHR ''.'' (package c))
        @ [name c @ ''Test.java'']\<rparr>"
proof -
  have seg: "\<forall>x \<in> set (split_on CHR ''.'' (package c)). CHR ''/'' \<notin> set x \<and> CHR ''.'' \<notin> set x"
    using split_on_subset [of "CHR ''.''" "package c"] assms(1) by blast
  have pd: "(if package c \<noteq> [] then Path (split_on CHR ''.'' (package c)) else Path [])
      = \<lparr>anchor = [], parts = filter (\<lambda>x. x \<noteq> []) (split_on CHR ''.'' (package c))\<rparr>"
    using Path_segments [OF seg] by (simp add: Path_def)
  have r: "Path [''app/src/test/java''] = \<lparr>anchor = [], parts = [''app'', ''src'', ''test'', ''java'']\<rparr>"
    by (simp add: Path_def path_of_str_def joinpath_def)
  have f: "path_of_str (test_class_name c @ ''.java'')
      = \<lparr>anchor = [], parts = [name c @ ''Test.java'']\<rparr>"
    using assms(2) by (simp add: path_of_str_noslash test_class_name_def)
  show ?thesis
    unfolding test_path_def Let_def pd r f by (simp add: joinpath_def)
qed

lemma rfind_Test_java: "rfind CHR ''.'' (n @ ''Test.java'') = int (length n) + 4"
  by (induction n) (auto simp: Let_def)

subsection \<open>Facts about the classifier\<close>

lemma scan_patterns_append:
  "scan_patterns ps text pkg p acc = acc @ scan_patterns ps text pkg p []"
proof (induction ps arbitrary: acc)
  case Nil
  show ?case by simp
next
  case (Cons a ps)
  obtain k r where a: "a = (k, r)" by (cases a)
  show ?case
  proof (cases "search r text")
    case None
    then show ?thesis using Cons.IH [of acc] by (simp add: a)
  next
    case (Some m)
    then show ?thesis
      using Cons.IH [of "acc @ [\<lparr>name = match_group 1 m, package = pkg, file_path = p, type = k\<rparr>]"]
        Cons.IH [of "[\<lparr>name = match_group 1 m, package = pkg, file_path = p, type = k\<rparr>]"]
      by (simp add: a)
  qed
qed

lemma scan_patterns_Cons:
  "scan_patterns ((k, r) # ps) text pkg p [] =
     (case search r text of None \<Rightarrow> []
      | Some m \<Rightarrow> [\<lparr>name = match_group 1 m, package = pkg, file_path = p, type = k\<rparr>])
     @ scan_patterns ps text pkg p []"
  using scan_patterns_append [of ps "text" pkg p "[\<lparr>name = match_group 1 (the (search r text)), package = pkg, file_path = p, type = k\<rparr>]"]
  by (auto split: option.splits)

lemma scan_patterns_types:
  "map type (scan_patterns ps text pkg p []) =
     map fst (filter (\<lambda>kr. search (snd kr) text \<noteq> None) ps)"
proof (induction ps)
  case Nil
  show ?case by simp
next
  case (Cons a ps)
  obtain k r where a: "a = (k, r)" by (cases a)
  show ?case unfolding a scan_patterns_Cons using Cons.IH by (auto split: option.splits)
qed

lemma scan_patterns_fields:
  "c \<in> set (scan_patterns ps text pkg p []) \<Longrightarrow> package c = pkg \<and> file_path c = p"
proof (induction ps)
  case Nil
  then show ?case by simp
next
  case (Cons a ps)
  obtain k r where a: "a = (k, r)" by (cases a)
  show ?case using Cons unfolding a scan_patterns_Cons by (auto split: option.splits)
qed



lemma scan_patterns_length: "length (scan_patterns ps text pkg p []) \<le> length ps"
proof -
  have "length (scan_patterns ps text pkg p []) = length (map type (scan_patterns ps text pkg p []))"
    by simp
  also have "\<dots> \<le> length ps" unfolding scan_patterns_types by simp
  finally show ?thesis .
qed


lemma first_match_upt:
  "first_match f [i..<n] = Some m \<Longrightarrow>
   \<exists>x. i \<le> x \<and> x < n \<and> f x = Some m \<and> (\<forall>j. i \<le> j \<and> j < x \<longrightarrow> f j = None)"
proof (induction "n - i" arbitrary: i)
  case 0
  then show ?case by simp
next
  case (Suc d)
  then have lt: "i < n" and d: "d = n - Suc i" by simp_all
  have u: "[i..<n] = i # [Suc i..<n]" using lt by (simp add: upt_conv_Cons)
  show ?case
  proof (cases "f i")
    case None
    then have "first_match f [Suc i..<n] = Some m" using Suc.prems u by simp
    then obtain x where x: "Suc i \<le> x" "x < n" "f x = Some m"
      "\<forall>j. Suc i \<le> j \<and> j < x \<longrightarrow> f j = None"
      using Suc.hyps(1) [OF d] by blast
    have "\<forall>j. i \<le> j \<and> j < x \<longrightarrow> f j = None"
    proof (intro allI impI)
      fix j assume "i \<le> j \<and> j < x"
      then have "j = i \<or> (Suc i \<le> j \<and> j < x)" by arith
      then show "f j = None" using None x(4) by blast
    qed
    moreover have "i \<le> x" using x(1) by simp
    ultimately show ?thesis using x(2,3) by blast
  next
    case (Some m')
    then have "f i = Some m" using Suc.prems u by simp
    then show ?thesis using lt by auto
  qed
qed

lemma first_match_None: "first_match f xs = None \<Longrightarrow> x \<in> set xs \<Longrightarrow> f x = None"
  by (induction xs) (auto split: option.splits)

lemma search_first:
  assumes "search r text = Some m"
  shows "\<exists>i \<le> length text. match_at r text i = Some m \<and> (\<forall>j < i. match_at r text j = None)"
proof -
  obtain x where "x < Suc (length text)" "match_at r text x = Some m"
    "\<forall>j. 0 \<le> j \<and> j < x \<longrightarrow> match_at r text j = None"
    using first_match_upt [OF assms [unfolded search_def]] by blast
  then have "x \<le> length text \<and> match_at r text x = Some m \<and> (\<forall>j < x. match_at r text j = None)"
    by simp
  then show ?thesis by blast
qed


lemma COMPONENT_PATTERNS_length: "length COMPONENT_PATTERNS = 4"
  by (simp add: COMPONENT_PATTERNS_def)


lemma parse_component_file_cases:
  assumes "parse_component_file w p = (w', Inr cs)"
  shows "cs = [] \<or> (\<exists>text. read_text w p = Inr text \<and> w' = w \<and>
           cs = scan_patterns COMPONENT_PATTERNS text (extract_package text) p [])"
  using assms by (auto simp: parse_component_file_def split: if_splits sum.splits)

lemma rep_greedy_cont:
  "rep_greedy cl n k p s g = Some res \<Longrightarrow>
   \<exists>p' s' ys. k p' s' g = Some res \<and> s = ys @ s' \<and> n \<le> length ys \<and> (\<forall>c \<in> set ys. cls_ok cl c)"
proof (induction s arbitrary: n p)
  case Nil
  then show ?case by (auto split: if_splits)
next
  case (Cons x xs)
  show ?case
  proof (cases "cls_ok cl x \<and> rep_greedy cl (n - 1) k (Some x) xs g = Some res")
    case True
    then obtain p' s' ys where h: "k p' s' g = Some res" "xs = ys @ s'" "n - 1 \<le> length ys"
      "\<forall>c \<in> set ys. cls_ok cl c"
      using Cons.IH by blast
    have "x # xs = (x # ys) @ s' \<and> n \<le> length (x # ys) \<and> (\<forall>c \<in> set (x # ys). cls_ok cl c)"
      using h True by auto
    then show ?thesis using h(1) by blast
  next
    case False
    then have "n = 0 \<and> k p (x # xs) g = Some res"
      using Cons.prems by (auto split: if_splits option.splits)
    then have "k p (x # xs) g = Some res \<and> x # xs = [] @ (x # xs) \<and> n \<le> length ([] :: string)
       \<and> (\<forall>c \<in> set []. cls_ok cl c)" by simp
    then show ?thesis by blast
  qed
qed

lemma rep_lazy_cont:
  "rep_lazy cl n k p s g = Some res \<Longrightarrow>
   \<exists>p' s' ys. k p' s' g = Some res \<and> s = ys @ s' \<and> n \<le> length ys \<and> (\<forall>c \<in> set ys. cls_ok cl c)"
proof (induction s arbitrary: n p)
  case Nil
  then show ?case by (auto split: if_splits)
next
  case (Cons x xs)
  show ?case
  proof (cases "n = 0 \<and> k p (x # xs) g = Some res")
    case True
    then have "k p (x # xs) g = Some res \<and> x # xs = [] @ (x # xs) \<and> n \<le> length ([] :: string)
       \<and> (\<forall>c \<in> set []. cls_ok cl c)" by simp
    then show ?thesis by blast
  next
    case False
    then have r: "cls_ok cl x \<and> rep_lazy cl (n - 1) k (Some x) xs g = Some res"
      using Cons.prems by (auto split: if_splits option.splits)
    then obtain p' s' ys where h: "k p' s' g = Some res" "xs = ys @ s'" "n - 1 \<le> length ys"
      "\<forall>c \<in> set ys. cls_ok cl c"
      using Cons.IH by blast
    have "x # xs = (x # ys) @ s' \<and> n \<le> length (x # ys) \<and> (\<forall>c \<in> set (x # ys). cls_ok cl c)"
      using h r by auto
    then show ?thesis using h(1) by blast
  qed
qed

lemma rmatch_cont:
  "rmatch r k p s g = Some res \<Longrightarrow>
   \<exists>p' s' d. k p' s' (d @ g) = Some res \<and> fst ` set d \<subseteq> grp_ids r"
proof (induction r arbitrary: k p s g)
  case (Lit l)
  then have "k (if l = [] then p else Some (last l)) (drop (length l) s) ([] @ g) = Some res \<and>
      fst ` set ([] :: groups) \<subseteq> grp_ids (Lit l)"
    by (simp split: if_splits)
  then show ?case by blast
next
  case (Rep greedy cl n)
  then have "\<exists>p' s'. k p' s' g = Some res"
    using rep_greedy_cont [of cl n k p s g res] rep_lazy_cont [of cl n k p s g res]
    by (cases greedy) auto
  then obtain p' s' where "k p' s' ([] @ g) = Some res \<and>
      fst ` set ([] :: groups) \<subseteq> grp_ids (Rep greedy cl n)" by auto
  then show ?case by blast
next
  case (Seq a b)
  from Seq.prems have a: "rmatch a (rmatch b k) p s g = Some res" by simp
  from Seq.IH(1) [OF a] obtain p1 s1 d1
    where 1: "rmatch b k p1 s1 (d1 @ g) = Some res" "fst ` set d1 \<subseteq> grp_ids a"
    by blast
  from Seq.IH(2) [OF 1(1)] obtain p2 s2 d2
    where 2: "k p2 s2 (d2 @ d1 @ g) = Some res" "fst ` set d2 \<subseteq> grp_ids b"
    by blast
  have "k p2 s2 ((d2 @ d1) @ g) = Some res \<and> fst ` set (d2 @ d1) \<subseteq> grp_ids (Seq a b)"
    using 1 2 by auto
  then show ?case by blast
next
  case (Alt a b)
  then have "rmatch a k p s g = Some res \<or> rmatch b k p s g = Some res"
    by (auto split: option.splits)
  then show ?case
  proof
    assume a: "rmatch a k p s g = Some res"
    from Alt.IH(1) [OF a] obtain p' s' d
      where "k p' s' (d @ g) = Some res" "fst ` set d \<subseteq> grp_ids a"
      by blast
    then have "k p' s' (d @ g) = Some res \<and> fst ` set d \<subseteq> grp_ids (Alt a b)" by auto
    then show ?thesis by blast
  next
    assume b: "rmatch b k p s g = Some res"
    from Alt.IH(2) [OF b] obtain p' s' d
      where "k p' s' (d @ g) = Some res" "fst ` set d \<subseteq> grp_ids b"
      by blast
    then have "k p' s' (d @ g) = Some res \<and> fst ` set d \<subseteq> grp_ids (Alt a b)" by auto
    then show ?thesis by blast
  qed
next
  case (Grp i r)
  from Grp.prems
  have a: "rmatch r (\<lambda>p' s' g'. k p' s' ((i, take (length s - length s') s) # g')) p s g = Some res"
    by simp
  from Grp.IH [OF a] obtain p' s' d
    where h: "k p' s' ((i, take (length s - length s') s) # d @ g) = Some res"
      "fst ` set d \<subseteq> grp_ids r"
    by blast
  have "k p' s' (((i, take (length s - length s') s) # d) @ g) = Some res \<and>
     fst ` set ((i, take (length s - length s') s) # d) \<subseteq> grp_ids (Grp i r)"
    using h by auto
  then show ?case by blast
next
  case WordB
  then have "k p s ([] @ g) = Some res \<and> fst ` set ([] :: groups) \<subseteq> grp_ids WordB"
    by (simp split: if_splits)
  then show ?case by blast
next
  case Bol
  then have "k p s ([] @ g) = Some res \<and> fst ` set ([] :: groups) \<subseteq> grp_ids Bol"
    by (simp split: if_splits)
  then show ?case by blast
qed

lemma map_of_group1:
  assumes "fst ` set d \<subseteq> G" and "1 \<notin> G"
  shows "match_group 1 (d @ [(1, ys)]) = ys"
proof -
  have "map_of d (1::nat) = None" using assms by (auto simp: map_of_eq_None_iff)
  then show ?thesis by (simp add: match_group_def map_add_def)
qed

lemma rmatch_SeqD: "rmatch (Seq a b) k p s g = Some res \<Longrightarrow> rmatch a (rmatch b k) p s g = Some res"
  by simp

lemma rmatch_WordBD: "rmatch WordB k p s g = Some res \<Longrightarrow> k p s g = Some res"
  by (simp split: if_splits)

lemma rmatch_LitD:
  "rmatch (Lit l) k p s g = Some res \<Longrightarrow> \<exists>p' s'. s = l @ s' \<and> k p' s' g = Some res"
proof -
  assume a: "rmatch (Lit l) k p s g = Some res"
  then have t: "take (length l) s = l" by (simp split: if_splits)
  then have "s = l @ drop (length l) s" by (metis append_take_drop_id)
  moreover have "k (if l = [] then p else Some (last l)) (drop (length l) s) g = Some res"
    using a t by simp
  ultimately show ?thesis by blast
qed

lemma rmatch_Rep_greedyD:
  "rmatch (Rep True cl n) k p s g = Some res \<Longrightarrow>
   \<exists>p' s' ys. k p' s' g = Some res \<and> s = ys @ s' \<and> n \<le> length ys \<and> (\<forall>c \<in> set ys. cls_ok cl c)"
  using rep_greedy_cont [of cl n k p s g res] by simp

lemma rmatch_Grp_RepD:
  assumes "rmatch (Grp i (Rep True cl n)) k p s g = Some res"
  shows "\<exists>p' s' ys. k p' s' ((i, ys) # g) = Some res \<and> s = ys @ s' \<and> n \<le> length ys \<and>
     (\<forall>c \<in> set ys. cls_ok cl c)"
proof -
  from assms
  have "rep_greedy cl n (\<lambda>p' s' g'. k p' s' ((i, take (length s - length s') s) # g')) p s g
      = Some res"
    by simp
  from rep_greedy_cont [OF this] obtain p' s' ys
    where h: "k p' s' ((i, take (length s - length s') s) # g) = Some res"
      "s = ys @ s'" "n \<le> length ys" "\<forall>c \<in> set ys. cls_ok cl c"
    by blast
  have "take (length s - length s') s = ys" using h(2) by simp
  then have "k p' s' ((i, ys) # g) = Some res \<and> s = ys @ s' \<and> n \<le> length ys \<and>
     (\<forall>c \<in> set ys. cls_ok cl c)"
    using h by simp
  then show ?thesis by blast
qed

lemma class_pattern_Seq:
  "class_pattern supertype =
     Seq WordB (Seq (Lit ''class'') (Seq (Rep True Space 1) (Seq (Grp 1 (Rep True Word 1))
       (Seq (Rep False AnyChar 0) (Seq (Grp 2 (Alt (Lit ''extends'') (Lit '':'')))
         (Seq (Rep True Space 1) (Seq (Rep False WordOrDot 0) (Seq supertype WordB))))))))"
  by (simp add: class_pattern_def seqs_def)

text \<open>
  A match of a class pattern starts at the word \<^verbatim>\<open>class\<close>; whitespace and the captured
  name follow it.
\<close>

lemma class_pattern_match:
  assumes "1 \<notin> grp_ids supertype" and "match_at (class_pattern supertype) text i = Some m"
  shows "(\<exists>ws rest. drop i text = ''class'' @ ws @ match_group 1 m @ rest \<and> ws \<noteq> [] \<and>
            (\<forall>c \<in> set ws. is_space c)) \<and>
     map_of m 1 = Some (match_group 1 m) \<and> match_group 1 m \<noteq> [] \<and>
     (\<forall>c \<in> set (match_group 1 m). is_word c)"
proof -
  let ?k0 = "(\<lambda>p s g. Some g) :: groups cont"
  let ?rest = "Seq (Rep False AnyChar 0) (Seq (Grp 2 (Alt (Lit ''extends'') (Lit '':'')))
     (Seq (Rep True Space 1) (Seq (Rep False WordOrDot 0) (Seq supertype WordB))))"
  let ?p0 = "if i = 0 then None else Some (text ! (i - 1))"
  have 0: "rmatch (Seq WordB (Seq (Lit ''class'') (Seq (Rep True Space 1)
      (Seq (Grp 1 (Rep True Word 1)) ?rest)))) ?k0 ?p0 (drop i text) [] = Some m"
    using assms(2) unfolding match_at_def class_pattern_Seq .
  have 1: "rmatch (Seq (Lit ''class'') (Seq (Rep True Space 1)
      (Seq (Grp 1 (Rep True Word 1)) ?rest))) ?k0 ?p0 (drop i text) [] = Some m"
    using rmatch_WordBD [OF rmatch_SeqD [OF 0]] .
  from rmatch_LitD [OF rmatch_SeqD [OF 1]] obtain p1 s1
    where s1: "drop i text = ''class'' @ s1"
      and 2: "rmatch (Seq (Rep True Space 1) (Seq (Grp 1 (Rep True Word 1)) ?rest)) ?k0 p1 s1 []
        = Some m"
    by blast
  from rmatch_Rep_greedyD [OF rmatch_SeqD [OF 2]] obtain p2 s2 ws
    where ws: "s1 = ws @ s2" "1 \<le> length ws" "\<forall>c \<in> set ws. cls_ok Space c"
      and 3: "rmatch (Seq (Grp 1 (Rep True Word 1)) ?rest) ?k0 p2 s2 [] = Some m"
    by blast
  from rmatch_Grp_RepD [OF rmatch_SeqD [OF 3]] obtain p3 s3 ys
    where ys: "s2 = ys @ s3" "1 \<le> length ys" "\<forall>c \<in> set ys. cls_ok Word c"
      and 4: "rmatch ?rest ?k0 p3 s3 [(1, ys)] = Some m"
    by blast
  from rmatch_cont [OF 4] obtain p4 s4 d
    where 5: "?k0 p4 s4 (d @ [(1, ys)]) = Some m" and d: "fst ` set d \<subseteq> grp_ids ?rest"
    by blast
  have m: "m = d @ [(1, ys)]" using 5 by simp
  have "1 \<notin> grp_ids ?rest" using assms(1) by simp
  then have g: "match_group 1 m = ys" unfolding m using map_of_group1 [OF d] by blast
  have mp: "map_of m 1 = Some (match_group 1 m)"
    using g ys(2) by (auto simp: match_group_def split: option.splits)
  have "drop i text = ''class'' @ ws @ match_group 1 m @ s3 \<and> ws \<noteq> [] \<and>
      (\<forall>c \<in> set ws. is_space c)"
    using s1 ws ys(1) g by auto
  then have "\<exists>ws rest. drop i text = ''class'' @ ws @ match_group 1 m @ rest \<and> ws \<noteq> [] \<and>
      (\<forall>c \<in> set ws. is_space c)"
    by blast
  then show ?thesis using mp g ys(2,3) by auto
qed

lemma class_pattern_name:
  assumes "1 \<notin> grp_ids supertype" and "search (class_pattern supertype) text = Some m"
  shows "map_of m 1 = Some (match_group 1 m) \<and> match_group 1 m \<noteq> [] \<and>
     (\<forall>c \<in> set (match_group 1 m). is_word c)"
proof -
  obtain i where "match_at (class_pattern supertype) text i = Some m"
    using search_first [OF assms(2)] by blast
  from class_pattern_match [OF assms(1) this] show ?thesis by blast
qed

lemma package_pattern_chars:
  assumes "search package_pattern text = Some m"
  shows "match_group 1 m \<noteq> [] \<and> (\<forall>c \<in> set (match_group 1 m). is_word c \<or> c = CHR ''.'')"
proof -
  let ?k0 = "(\<lambda>p s g. Some g) :: groups cont"
  let ?pre = "Seq Bol (Seq (Rep True Space 0) (Seq (Lit ''package'') (Rep True Space 1)))"
  let ?k3 = "rmatch (Grp 1 (Rep True WordOrDot 1)) ?k0"
  obtain i where "match_at package_pattern text i = Some m"
    using search_first [OF assms] by blast
  then obtain p s where "rmatch package_pattern ?k0 p s [] = Some m"
    unfolding match_at_def by blast
  moreover have "rmatch package_pattern ?k0 = rmatch ?pre ?k3"
    by (simp add: package_pattern_def seqs_def)
  ultimately have "rmatch ?pre ?k3 p s [] = Some m" by simp
  from rmatch_cont [OF this] obtain p1 s1 d1
    where 1: "?k3 p1 s1 (d1 @ []) = Some m" and "fst ` set d1 \<subseteq> grp_ids ?pre"
    by blast
  then have "d1 = []" by simp
  then have "rep_greedy WordOrDot 1
      (\<lambda>p' s' g'. ?k0 p' s' ((1, take (length s1 - length s') s1) # g')) p1 s1 [] = Some m"
    using 1 by simp
  from rep_greedy_cont [OF this] obtain p2 s2 ys
    where 2: "?k0 p2 s2 [(1, take (length s1 - length s2) s1)] = Some m"
      and ys: "s1 = ys @ s2" "1 \<le> length ys" "\<forall>c \<in> set ys. cls_ok WordOrDot c"
    by blast
  have t: "take (length s1 - length s2) s1 = ys" using ys(1) by simp
  have "m = [(1, ys)]" using 2 t by simp
  then have "match_group 1 m = ys" by (simp add: match_group_def)
  then show ?thesis using ys(2,3) by auto
qed

lemma is_word_not_slash: "is_word c \<Longrightarrow> c \<noteq> CHR ''/''"
  by (auto simp: is_word_def Let_def)

lemma scan_patterns_names:
  assumes "\<forall>(k, r) \<in> set ps. \<exists>supertype. r = class_pattern supertype \<and> 1 \<notin> grp_ids supertype"
    and "c \<in> set (scan_patterns ps text pkg p [])"
  shows "name c \<noteq> [] \<and> (\<forall>x \<in> set (name c). is_word x)"
  using assms
proof (induction ps)
  case Nil
  then show ?case by simp
next
  case (Cons a ps)
  obtain k r where a: "a = (k, r)" by (cases a)
  from Cons.prems(1) a obtain supertype where r: "r = class_pattern supertype" "1 \<notin> grp_ids supertype"
    by auto
  show ?case
  proof (cases "c \<in> set (scan_patterns ps text pkg p [])")
    case True
    then show ?thesis using Cons.IH Cons.prems(1) by simp
  next
    case False
    show ?thesis
    proof (cases "search r text")
      case None
      then show ?thesis using Cons.prems(2) False unfolding a scan_patterns_Cons by simp
    next
      case (Some m)
      then have "c = \<lparr>name = match_group 1 m, package = pkg, file_path = p, type = k\<rparr>"
        using Cons.prems(2) False unfolding a scan_patterns_Cons by simp
      then have "name c = match_group 1 m" by simp
      then show ?thesis using class_pattern_name [OF r(2)] r(1) Some by simp
    qed
  qed
qed

lemma COMPONENT_PATTERNS_class:
  "\<forall>(k, r) \<in> set COMPONENT_PATTERNS.
      \<exists>supertype. r = class_pattern supertype \<and> 1 \<notin> grp_ids supertype"
proof -
  have ex: "\<exists>supertype. class_pattern s = class_pattern supertype \<and> 1 \<notin> grp_ids supertype"
    if "1 \<notin> grp_ids s" for s
    using that by blast
  show ?thesis unfolding COMPONENT_PATTERNS_def by (simp del: One_nat_def add: ex)
qed

lemma parse_component_file_names:
  assumes "parse_component_file w p = (w', Inr cs)" and "c \<in> set cs"
  shows "name c \<noteq> [] \<and> (\<forall>x \<in> set (name c). is_word x) \<and>
     (\<forall>x \<in> set (package c). is_word x \<or> x = CHR ''.'') \<and>
     test_path c =
       \<lparr>anchor = [], parts = [''app'', ''src'', ''test'', ''java'']
          @ filter (\<lambda>x. x \<noteq> []) (split_on CHR ''.'' (package c))
          @ [name c @ ''Test.java'']\<rparr>"
proof -
  from parse_component_file_cases [OF assms(1)] assms(2) obtain t
    where cs: "cs = scan_patterns COMPONENT_PATTERNS t (extract_package t) p []" by auto
  have n: "name c \<noteq> [] \<and> (\<forall>x \<in> set (name c). is_word x)"
    using scan_patterns_names [OF COMPONENT_PATTERNS_class] assms(2) cs by blast
  have "package c = extract_package t" using scan_patterns_fields assms(2) cs by blast
  then have pk: "\<forall>x \<in> set (package c). is_word x \<or> x = CHR ''.''"
    using package_pattern_chars [of t]
    by (auto simp: extract_package_def split: option.splits)
  have "CHR ''/'' \<notin> set (package c)" using pk is_word_not_slash by auto
  moreover have "CHR ''/'' \<notin> set (name c)" using n is_word_not_slash by auto
  ultimately show ?thesis using n pk test_path_parts by blast
qed

subsection \<open>A worked file\<close>

lemma example_Activity:
  "search (class_pattern (Grp 3 (Seq (Rep True Word 0) (Lit ''Activity'')))) ''package a.b\<newline>class C: XService class D: ViewModel'' = None"
  by code_simp

lemma example_Service:
  "search (class_pattern (Grp 3 (Seq (Rep True Word 0) (Lit ''Service'')))) ''package a.b\<newline>class C: XService class D: ViewModel''
     = Some [(3, ''XService''), (2, '':''), (1, ''C'')]"
  by code_simp

lemma example_BroadcastReceiver:
  "search (class_pattern (Lit ''BroadcastReceiver'')) ''package a.b\<newline>class C: XService class D: ViewModel'' = None"
  by code_simp

lemma example_ViewModel:
  "search (class_pattern (Lit ''ViewModel'')) ''package a.b\<newline>class C: XService class D: ViewModel'' = Some [(2, '':''), (1, ''C'')]"
  by code_simp

lemma example_package: "search package_pattern ''package a.b\<newline>class C: XService class D: ViewModel'' = Some [(1, ''a.b'')]"
  by code_simp


lemma example_suffix: "suffix \<lparr>anchor = [], parts = [''C.kt'']\<rparr> = ''.kt''"
  by (simp add: suffix_def path_name_def Let_def)

lemma example_read:
  "is_file \<lparr>cwd = \<lparr>anchor = ''/'', parts = []\<rparr>,
       nodes = [\<lparr>anchor = ''/'', parts = [''C.kt'']\<rparr> \<mapsto> File t], stdout = []\<rparr>
     \<lparr>anchor = [], parts = [''C.kt'']\<rparr>"
  "CHR 0x0D \<notin> set t \<Longrightarrow>
   read_text \<lparr>cwd = \<lparr>anchor = ''/'', parts = []\<rparr>,
       nodes = [\<lparr>anchor = ''/'', parts = [''C.kt'']\<rparr> \<mapsto> File t], stdout = []\<rparr>
     \<lparr>anchor = [], parts = [''C.kt'']\<rparr> = Inr t"
  by (simp_all add: is_file_def read_text_def node_at_def resolve_def joinpath_def
      universal_newlines_id)

lemma example_parse:
  "parse_component_file
     \<lparr>cwd = \<lparr>anchor = ''/'', parts = []\<rparr>,
       nodes = [\<lparr>anchor = ''/'', parts = [''C.kt'']\<rparr> \<mapsto> File ''package a.b\<newline>class C: XService class D: ViewModel''], stdout = []\<rparr>
     \<lparr>anchor = [], parts = [''C.kt'']\<rparr>
   = (\<lparr>cwd = \<lparr>anchor = ''/'', parts = []\<rparr>,
       nodes = [\<lparr>anchor = ''/'', parts = [''C.kt'']\<rparr> \<mapsto> File ''package a.b\<newline>class C: XService class D: ViewModel''], stdout = []\<rparr>,
      Inr [\<lparr>name = ''C'', package = ''a.b'', file_path = \<lparr>anchor = [], parts = [''C.kt'']\<rparr>, type = ''Service''\<rparr>,
           \<lparr>name = ''C'', package = ''a.b'', file_path = \<lparr>anchor = [], parts = [''C.kt'']\<rparr>, type = ''ViewModel''\<rparr>])"
  by (simp add: parse_component_file_def example_suffix SUPPORTED_EXTENSIONS_def example_read
      COMPONENT_PATTERNS_def example_Activity example_Service example_BroadcastReceiver
      example_ViewModel extract_package_def example_package match_group_def)

subsection \<open>One fragment per kind\<close>










subsection \<open>What the fragments of one file share\<close>

text \<open>
  C10. All components returned by one call of the classifier carry the path that was
  passed in and the same package, the one extracted from the text of the file (empty
  when no package declaration matches), and there are at most four of them.
\<close>

theorem parse_component_file_invariant:
  assumes "parse_component_file w p = (w', Inr cs)"
  shows "length cs \<le> 4 \<and>
     (\<exists>pkg. \<forall>c \<in> set cs. package c = pkg \<and> file_path c = p) \<and>
     (\<forall>text. read_text w p = Inr text \<longrightarrow>
        (\<forall>c \<in> set cs. package c = extract_package text) \<and>
        (search package_pattern text = None \<longrightarrow> (\<forall>c \<in> set cs. package c = [])))"
proof -
  from parse_component_file_cases [OF assms]
  show ?thesis
  proof
    assume "cs = []"
    then show ?thesis by simp
  next
    assume "\<exists>text. read_text w p = Inr text \<and> w' = w \<and>
           cs = scan_patterns COMPONENT_PATTERNS text (extract_package text) p []"
    then obtain t where t: "read_text w p = Inr t"
      and cs: "cs = scan_patterns COMPONENT_PATTERNS t (extract_package t) p []" by blast
    have len: "length cs \<le> 4"
      using scan_patterns_length [of COMPONENT_PATTERNS] COMPONENT_PATTERNS_length cs by simp
    have f: "\<forall>c \<in> set cs. package c = extract_package t \<and> file_path c = p"
      using scan_patterns_fields cs by blast
    have e: "search package_pattern t = None \<longrightarrow> extract_package t = []"
      by (simp add: extract_package_def)
    show ?thesis using len f e t by auto
  qed
qed

theorem parse_component_file_invariant_witness:
  "let P = \<lparr>anchor = [], parts = [''C.kt'']\<rparr>;
       W = \<lparr>cwd = \<lparr>anchor = ''/'', parts = []\<rparr>,
             nodes = [\<lparr>anchor = ''/'', parts = [''C.kt'']\<rparr> \<mapsto> File ''package a.b\<newline>class C: XService class D: ViewModel''], stdout = []\<rparr>;
       cs = [\<lparr>name = ''C'', package = ''a.b'', file_path = P, type = ''Service''\<rparr>,
             \<lparr>name = ''C'', package = ''a.b'', file_path = P, type = ''ViewModel''\<rparr>]
   in parse_component_file W P = (W, Inr cs) \<and> read_text W P = Inr ''package a.b\<newline>class C: XService class D: ViewModel'' \<and>
      length cs \<le> 4 \<and>
      (\<exists>pkg. \<forall>c \<in> set cs. package c = pkg \<and> file_path c = P) \<and>
      (\<forall>c \<in> set cs. package c = extract_package ''package a.b\<newline>class C: XService class D: ViewModel'')"
proof -
  have "read_text \<lparr>cwd = \<lparr>anchor = ''/'', parts = []\<rparr>,
       nodes = [\<lparr>anchor = ''/'', parts = [''C.kt'']\<rparr> \<mapsto> File ''package a.b\<newline>class C: XService class D: ViewModel''], stdout = []\<rparr>
     \<lparr>anchor = [], parts = [''C.kt'']\<rparr> = Inr ''package a.b\<newline>class C: XService class D: ViewModel''"
    by (simp add: example_read)
  then show ?thesis
    unfolding Let_def
    using parse_component_file_invariant [OF example_parse] example_parse by blast
qed

subsection \<open>The test path\<close>

text \<open>
  C2. For every unit whose name and package hold no slash, the test path is
  \<^verbatim>\<open>app/src/test/java\<close>, then the non-empty segments of the package between its dots
  (an empty package has none), then the name followed by \<^verbatim>\<open>Test.java\<close>. The extension
  is \<^verbatim>\<open>.java\<close> whatever the extension of the unit's source file is.
\<close>

theorem test_path_spec:
  assumes "CHR ''/'' \<notin> set (package c)" and "CHR ''/'' \<notin> set (name c)"
  shows "test_path c =
     \<lparr>anchor = [], parts = [''app'', ''src'', ''test'', ''java'']
        @ filter (\<lambda>x. x \<noteq> []) (split_on CHR ''.'' (package c))
        @ [test_class_name c @ ''.java'']\<rparr> \<and>
     suffix (test_path c) = ''.java'' \<and>
     (package c = [] \<longrightarrow>
        test_path c = \<lparr>anchor = [], parts = [''app'', ''src'', ''test'', ''java'',
                                                test_class_name c @ ''.java'']\<rparr>)"
proof -
  have p: "test_path c =
     \<lparr>anchor = [], parts = [''app'', ''src'', ''test'', ''java'']
        @ filter (\<lambda>x. x \<noteq> []) (split_on CHR ''.'' (package c))
        @ [name c @ ''Test.java'']\<rparr>"
    using test_path_parts [OF assms] .
  have n: "path_name (test_path c) = name c @ ''Test.java''"
    unfolding p by (simp add: path_name_def)
  have s: "suffix (test_path c) = ''.java''"
  proof -
    have "nat (int (length (name c)) + 4) = length (name c) + 4" by simp
    then show ?thesis
      unfolding suffix_def n Let_def rfind_Test_java by simp
  qed
  show ?thesis using p s by (simp add: test_class_name_def)
qed

theorem test_path_spec_witness:
  "let c = \<lparr>name = ''LoginActivity'', package = ''com.app'',
            file_path = \<lparr>anchor = [], parts = [''src'', ''LoginActivity.kt'']\<rparr>,
            type = ''Activity''\<rparr>;
       d = \<lparr>name = ''Main'', package = [],
            file_path = \<lparr>anchor = [], parts = [''Main.java'']\<rparr>, type = ''Service''\<rparr>
   in CHR ''/'' \<notin> set (package c) \<and> CHR ''/'' \<notin> set (name c) \<and>
      test_path c = \<lparr>anchor = [], parts = [''app'', ''src'', ''test'', ''java'', ''com'', ''app'',
                                             ''LoginActivityTest.java'']\<rparr> \<and>
      suffix (test_path c) = ''.java'' \<and>
      package d = [] \<and>
      test_path d = \<lparr>anchor = [], parts = [''app'', ''src'', ''test'', ''java'',
                                             ''MainTest.java'']\<rparr>"
  using test_path_spec [of "\<lparr>name = ''LoginActivity'', package = ''com.app'',
            file_path = \<lparr>anchor = [], parts = [''src'', ''LoginActivity.kt'']\<rparr>,
            type = ''Activity''\<rparr>"]
    test_path_spec [of "\<lparr>name = ''Main'', package = [],
            file_path = \<lparr>anchor = [], parts = [''Main.java'']\<rparr>, type = ''Service''\<rparr>"]
  by (simp add: test_class_name_def suffix_def path_name_def Let_def)

theorem test_path_extension_counterexample:
  "suffix (file_path \<lparr>name = ''LoginActivity'', package = ''com.app'',
            file_path = \<lparr>anchor = [], parts = [''src'', ''LoginActivity.kt'']\<rparr>,
            type = ''Activity''\<rparr>) = ''.kt'' \<and>
   test_path \<lparr>name = ''LoginActivity'', package = ''com.app'',
            file_path = \<lparr>anchor = [], parts = [''src'', ''LoginActivity.kt'']\<rparr>,
            type = ''Activity''\<rparr>
     \<noteq> \<lparr>anchor = [], parts = [''app'', ''src'', ''test'', ''java'', ''com'', ''app'',
          ''LoginActivityTest'' @ suffix (file_path \<lparr>name = ''LoginActivity'', package = ''com.app'',
            file_path = \<lparr>anchor = [], parts = [''src'', ''LoginActivity.kt'']\<rparr>,
            type = ''Activity''\<rparr>)]\<rparr>"
  by (simp add: test_path_def test_class_name_def Path_def path_of_str_def joinpath_def
      suffix_def path_name_def Let_def)

subsection \<open>Qualified names\<close>

text \<open>
  C5. For every unit, the qualified name is the package, a dot and the name when the
  package is not empty, and the name alone when the package is empty.
\<close>

theorem qualified_name_spec:
  "(package c \<noteq> [] \<longrightarrow> qualified_name c = package c @ ''.'' @ name c) \<and>
   (package c = [] \<longrightarrow> qualified_name c = name c)"
  by (simp add: qualified_name_def)

theorem qualified_name_spec_witness:
  "qualified_name \<lparr>name = ''LoginActivity'', package = ''com.app'',
      file_path = \<lparr>anchor = '''', parts = [''LoginActivity.java'']\<rparr>, type = ''Activity''\<rparr>
     = ''com.app.LoginActivity'' \<and>
   qualified_name \<lparr>name = ''LoginActivity'', package = '''',
      file_path = \<lparr>anchor = '''', parts = [''LoginActivity.java'']\<rparr>, type = ''Activity''\<rparr>
     = ''LoginActivity''"
  using qualified_name_spec [of "\<lparr>name = ''LoginActivity'', package = ''com.app'',
      file_path = \<lparr>anchor = '''', parts = [''LoginActivity.java'']\<rparr>, type = ''Activity''\<rparr>"]
    qualified_name_spec [of "\<lparr>name = ''LoginActivity'', package = '''',
      file_path = \<lparr>anchor = '''', parts = [''LoginActivity.java'']\<rparr>, type = ''Activity''\<rparr>"]
  by simp

subsection \<open>The import list\<close>

lemma sort_set_iteration:
  assumes "set_iteration f" and "set_iteration g"
  shows "sort (f xs) = sort (g xs)"
proof (rule sorted_distinct_set_unique)
  show "sorted (sort (f xs))" and "sorted (sort (g xs))" by simp_all
  show "distinct (sort (f xs))" and "distinct (sort (g xs))"
    using assms by (simp_all add: set_iteration_def)
  show "set (sort (f xs)) = set (sort (g xs))"
    using assms by (simp add: set_iteration_def)
qed

lemma generate_imports_order:
  "set_iteration f \<Longrightarrow> set_iteration g \<Longrightarrow> generate_imports f c = generate_imports g c"
  unfolding generate_imports_def Let_def by (rule sort_set_iteration)

lemma set_iteration_remdups: "set_iteration remdups"
  by (simp add: set_iteration_def)

lemma set_iteration_rev_remdups: "set_iteration (\<lambda>xs. rev (remdups xs))"
  by (simp add: set_iteration_def)

text \<open>
  C9. For every unit and every iteration order of the set, the import list has no
  element twice, is sorted in lexicographic order, and contains the six baseline
  imports, the context, intent and log imports for the kinds Activity, Service and
  BroadcastReceiver, the ViewModel and SavedStateHandle imports for the kind ViewModel,
  and the qualified name of the unit.
\<close>

theorem generate_imports_spec:
  assumes "set_iteration set_order"
  shows "distinct (generate_imports set_order c) \<and> sorted (generate_imports set_order c) \<and>
     {''org.junit.Test'', ''org.junit.runner.RunWith'', ''org.junit.Assert'', ''org.mockito.Mock'',
      ''org.mockito.Mockito'', ''org.mockito.junit.MockitoJUnitRunner''}
       \<subseteq> set (generate_imports set_order c) \<and>
     (type c \<in> {''Activity'', ''Service'', ''BroadcastReceiver''} \<longrightarrow>
        {''android.content.Context'', ''android.content.Intent'', ''android.util.Log''}
          \<subseteq> set (generate_imports set_order c)) \<and>
     (type c = ''ViewModel'' \<longrightarrow>
        {''androidx.lifecycle.ViewModel'', ''androidx.lifecycle.SavedStateHandle''}
          \<subseteq> set (generate_imports set_order c)) \<and>
     qualified_name c \<in> set (generate_imports set_order c)"
proof -
  have d: "distinct (generate_imports set_order c)"
    using assms by (simp add: generate_imports_def Let_def set_iteration_def)
  have s: "sorted (generate_imports set_order c)"
    by (simp add: generate_imports_def Let_def)
  have m: "set (generate_imports set_order c) =
     {''org.junit.Test'', ''org.junit.runner.RunWith'', ''org.junit.Assert'', ''org.mockito.Mock'',
      ''org.mockito.Mockito'', ''org.mockito.junit.MockitoJUnitRunner''}
     \<union> (if type c \<in> {''Activity'', ''Service'', ''BroadcastReceiver''}
        then {''android.content.Context'', ''android.content.Intent'', ''android.util.Log''} else {})
     \<union> (if type c = ''BroadcastReceiver'' then {''android.content.BroadcastReceiver''} else {})
     \<union> (if type c = ''Activity'' then {''android.app.Activity''} else {})
     \<union> (if type c = ''Service'' then {''android.app.Service''} else {})
     \<union> (if type c = ''ViewModel''
        then {''androidx.lifecycle.ViewModel'', ''androidx.lifecycle.SavedStateHandle''} else {})
     \<union> {qualified_name c}"
    using assms unfolding generate_imports_def Let_def set_iteration_def set_sort
    by auto
  show ?thesis using d s unfolding m by auto
qed

theorem generate_imports_spec_witness:
  "set_iteration remdups \<and>
   generate_imports remdups (\<lparr>name = ''LoginActivity'', package = ''com.app'',
      file_path = \<lparr>anchor = [], parts = [''LoginActivity.java'']\<rparr>, type = ''Activity''\<rparr>) =
     [''android.app.Activity'', ''android.content.Context'', ''android.content.Intent'',
      ''android.util.Log'', ''com.app.LoginActivity'', ''org.junit.Assert'', ''org.junit.Test'',
      ''org.junit.runner.RunWith'', ''org.mockito.Mock'', ''org.mockito.Mockito'',
      ''org.mockito.junit.MockitoJUnitRunner''] \<and>
   distinct (generate_imports remdups (\<lparr>name = ''LoginActivity'', package = ''com.app'',
      file_path = \<lparr>anchor = [], parts = [''LoginActivity.java'']\<rparr>, type = ''Activity''\<rparr>)) \<and> sorted (generate_imports remdups (\<lparr>name = ''LoginActivity'', package = ''com.app'',
      file_path = \<lparr>anchor = [], parts = [''LoginActivity.java'']\<rparr>, type = ''Activity''\<rparr>)) \<and>
   type (\<lparr>name = ''LoginActivity'', package = ''com.app'',
      file_path = \<lparr>anchor = [], parts = [''LoginActivity.java'']\<rparr>, type = ''Activity''\<rparr>) \<in> {''Activity'', ''Service'', ''BroadcastReceiver''} \<and>
   ''android.content.Intent'' \<in> set (generate_imports remdups (\<lparr>name = ''LoginActivity'', package = ''com.app'',
      file_path = \<lparr>anchor = [], parts = [''LoginActivity.java'']\<rparr>, type = ''Activity''\<rparr>)) \<and>
   qualified_name (\<lparr>name = ''LoginActivity'', package = ''com.app'',
      file_path = \<lparr>anchor = [], parts = [''LoginActivity.java'']\<rparr>, type = ''Activity''\<rparr>) \<in> set (generate_imports remdups (\<lparr>name = ''LoginActivity'', package = ''com.app'',
      file_path = \<lparr>anchor = [], parts = [''LoginActivity.java'']\<rparr>, type = ''Activity''\<rparr>)) \<and>
   type (\<lparr>name = ''MainViewModel'', package = [],
      file_path = \<lparr>anchor = [], parts = [''MainViewModel.kt'']\<rparr>, type = ''ViewModel''\<rparr>) = ''ViewModel'' \<and>
   ''androidx.lifecycle.SavedStateHandle'' \<in> set (generate_imports remdups (\<lparr>name = ''MainViewModel'', package = [],
      file_path = \<lparr>anchor = [], parts = [''MainViewModel.kt'']\<rparr>, type = ''ViewModel''\<rparr>)) \<and>
   ''org.junit.Test'' \<in> set (generate_imports remdups (\<lparr>name = ''MainViewModel'', package = [],
      file_path = \<lparr>anchor = [], parts = [''MainViewModel.kt'']\<rparr>, type = ''ViewModel''\<rparr>))"
proof -
  have e: "generate_imports remdups (\<lparr>name = ''LoginActivity'', package = ''com.app'',
      file_path = \<lparr>anchor = [], parts = [''LoginActivity.java'']\<rparr>, type = ''Activity''\<rparr>) =
     [''android.app.Activity'', ''android.content.Context'', ''android.content.Intent'',
      ''android.util.Log'', ''com.app.LoginActivity'', ''org.junit.Assert'', ''org.junit.Test'',
      ''org.junit.runner.RunWith'', ''org.mockito.Mock'', ''org.mockito.Mockito'',
      ''org.mockito.junit.MockitoJUnitRunner'']"
    by code_simp
  have "''android.content.Intent'' \<in> set (generate_imports remdups (\<lparr>name = ''LoginActivity'', package = ''com.app'',
      file_path = \<lparr>anchor = [], parts = [''LoginActivity.java'']\<rparr>, type = ''Activity''\<rparr>))"
    using generate_imports_spec [OF set_iteration_remdups, of "(\<lparr>name = ''LoginActivity'', package = ''com.app'',
      file_path = \<lparr>anchor = [], parts = [''LoginActivity.java'']\<rparr>, type = ''Activity''\<rparr>)"] by simp
  moreover have "''androidx.lifecycle.SavedStateHandle'' \<in> set (generate_imports remdups (\<lparr>name = ''MainViewModel'', package = [],
      file_path = \<lparr>anchor = [], parts = [''MainViewModel.kt'']\<rparr>, type = ''ViewModel''\<rparr>))"
    "''org.junit.Test'' \<in> set (generate_imports remdups (\<lparr>name = ''MainViewModel'', package = [],
      file_path = \<lparr>anchor = [], parts = [''MainViewModel.kt'']\<rparr>, type = ''ViewModel''\<rparr>))"
    using generate_imports_spec [OF set_iteration_remdups, of "(\<lparr>name = ''MainViewModel'', package = [],
      file_path = \<lparr>anchor = [], parts = [''MainViewModel.kt'']\<rparr>, type = ''ViewModel''\<rparr>)"] by simp_all
  ultimately show ?thesis
    using e set_iteration_remdups generate_imports_spec [OF set_iteration_remdups, of "(\<lparr>name = ''LoginActivity'', package = ''com.app'',
      file_path = \<lparr>anchor = [], parts = [''LoginActivity.java'']\<rparr>, type = ''Activity''\<rparr>)"]
    by simp
qed

subsection \<open>Determinism of the scaffold\<close>

text \<open>
  C4. The generator takes the unit and nothing else from the world, and returns only
  text. Its one source of variation, the iteration order of the set of imports, does not
  reach the text: for identical units, any two iteration orders give the same text.
\<close>

theorem test_class_deterministic:
  assumes "set_iteration f" and "set_iteration g" and "c = d"
  shows "test_class f c = test_class g d"
  using assms(3) generate_imports_order [OF assms(1,2), of d] by (simp only: test_class_def)

theorem test_class_deterministic_witness:
  "set_iteration remdups \<and> set_iteration (\<lambda>xs. rev (remdups xs)) \<and>
   test_class remdups \<lparr>name = ''LoginActivity'', package = ''com.app'',
      file_path = \<lparr>anchor = [], parts = [''LoginActivity.java'']\<rparr>, type = ''Activity''\<rparr>
   = test_class (\<lambda>xs. rev (remdups xs)) \<lparr>name = ''LoginActivity'', package = ''com.app'',
      file_path = \<lparr>anchor = [], parts = [''LoginActivity.java'']\<rparr>, type = ''Activity''\<rparr>"
  using test_class_deterministic [OF set_iteration_remdups set_iteration_rev_remdups refl]
    set_iteration_remdups set_iteration_rev_remdups
  by blast

subsection \<open>Facts about the build file\<close>

lemma contains_iff: "contains n h \<longleftrightarrow> (\<exists>a b. h = a @ n @ b)"
proof (induction h)
  case Nil
  show ?case by auto
next
  case (Cons x xs)
  show ?case
  proof
    assume "contains n (x # xs)"
    then consider "take (length n) (x # xs) = n" | "contains n xs" by auto
    then show "\<exists>a b. x # xs = a @ n @ b"
    proof cases
      case 1
      then have "x # xs = [] @ n @ drop (length n) (x # xs)"
        by (metis append_Nil append_take_drop_id)
      then show ?thesis by blast
    next
      case 2
      then obtain a b where "xs = a @ n @ b" using Cons.IH by blast
      then have "x # xs = (x # a) @ n @ b" by simp
      then show ?thesis by blast
    qed
  next
    assume "\<exists>a b. x # xs = a @ n @ b"
    then obtain a b where ab: "x # xs = a @ n @ b" by blast
    show "contains n (x # xs)"
    proof (cases a)
      case Nil
      then have "take (length n) (x # xs) = n" using ab by simp
      then show ?thesis by simp
    next
      case (Cons y ys)
      then have "xs = ys @ n @ b" using ab by simp
      then have "contains n xs" using Cons.IH by blast
      then show ?thesis by simp
    qed
  qed
qed

lemma contains_append: "contains n h \<Longrightarrow> contains n (pre @ h)"
  unfolding contains_iff by (metis append.assoc)

lemma JACOCO_SNIPPET_markers:
  "contains ''jacocoTestReport'' JACOCO_SNIPPET" "contains ''jacoco'' JACOCO_SNIPPET"
  by (simp_all add: JACOCO_SNIPPET_def)

lemma rstrip_split: "s = rstrip s @ rev (takeWhile is_space (rev s))"
proof -
  have "rev (takeWhile is_space (rev s) @ dropWhile is_space (rev s)) = s" by simp
  from this [unfolded rev_append] show ?thesis unfolding rstrip_def by (rule sym)
qed

lemma write_text_existing:
  "read_text w p = Inr content \<Longrightarrow>
   write_text w p new = Inr (w\<lparr>nodes := (nodes w)(resolve w p \<mapsto> File new)\<rparr>)"
  by (auto simp: read_text_Inr write_text_def Let_def)

lemma read_text_after_write:
  "read_text w p = Inr content \<Longrightarrow>
   read_text (print line (w\<lparr>nodes := (nodes w)(resolve w p \<mapsto> File new)\<rparr>)) p
     = Inr (universal_newlines new)"
  unfolding read_text_Inr
  by (auto simp: node_at_def resolve_def print_def split: if_splits)

lemma rstrip_subset: "set (rstrip s) \<subseteq> set s"
  unfolding rstrip_def using set_dropWhileD [of _ is_space "rev s"] by auto

lemma JACOCO_SNIPPET_no_cr: "CHR 0x0D \<notin> set JACOCO_SNIPPET"
  by (simp add: JACOCO_SNIPPET_def)

lemma appended_no_cr:
  "CHR 0x0D \<notin> set content \<Longrightarrow>
   universal_newlines (rstrip content @ ''\<newline>\<newline>'' @ JACOCO_SNIPPET)
     = rstrip content @ ''\<newline>\<newline>'' @ JACOCO_SNIPPET"
  using rstrip_subset [of content] JACOCO_SNIPPET_no_cr
  by (intro universal_newlines_id) auto

lemma read_text_print: "read_text (print line w) p = read_text w p"
  by (simp add: read_text_def node_at_def resolve_def print_def)

lemma ensure_jacoco_configured:
  assumes "read_text w p = Inr content"
    and "contains ''jacocoTestReport'' content" and "contains ''jacoco'' content"
  shows "ensure_jacoco w p = (print ''JaCoCo configuration already detected.'' w, Inr ())"
proof -
  have "exists w p" using assms(1) by (auto simp: read_text_Inr exists_def)
  then show ?thesis using assms by (simp add: ensure_jacoco_def)
qed

lemma ensure_jacoco_appends:
  assumes "read_text w p = Inr content"
    and "\<not> (contains ''jacocoTestReport'' content \<and> contains ''jacoco'' content)"
  shows "ensure_jacoco w p =
     (print (''Appended JaCoCo configuration to '' @ path_str p)
        (w\<lparr>nodes := (nodes w)(resolve w p \<mapsto>
              File (rstrip content @ ''\<newline>\<newline>'' @ JACOCO_SNIPPET))\<rparr>), Inr ())"
proof -
  have "exists w p" using assms(1) by (auto simp: read_text_Inr exists_def)
  then show ?thesis
    using assms write_text_existing [OF assms(1)]
    by (auto simp: ensure_jacoco_def Let_def)
qed

lemma ensure_jacoco_other:
  assumes "\<forall>content. read_text w p \<noteq> Inr content"
  shows "nodes (fst (ensure_jacoco w p)) = nodes w"
  using assms by (auto simp: ensure_jacoco_def print_def split: sum.splits)

lemma example_gradle_read:
  "CHR 0x0D \<notin> set t \<Longrightarrow>
   read_text (\<lparr>cwd = \<lparr>anchor = ''/'', parts = []\<rparr>,
       nodes = [\<lparr>anchor = ''/'', parts = [''app'']\<rparr> \<mapsto> Dir,
                \<lparr>anchor = ''/'', parts = [''app'', ''build.gradle'']\<rparr> \<mapsto> File t],
       stdout = []\<rparr>) \<lparr>anchor = [], parts = [''app'', ''build.gradle'']\<rparr> = Inr t"
  by (simp add: read_text_def node_at_def resolve_def joinpath_def universal_newlines_id)

subsection \<open>The augmenter runs once\<close>

text \<open>
  C7. If the build file holds both marker tokens, \<^verbatim>\<open>jacocoTestReport\<close> and \<^verbatim>\<open>jacoco\<close>,
  the augmenter leaves every file as it is. Hence a second run after a first one, on any
  build file, changes no file: the block is never appended twice.
\<close>

theorem ensure_jacoco_idempotent:
  "(\<forall>content. read_text w p = Inr content \<and> contains ''jacocoTestReport'' content \<and>
       contains ''jacoco'' content \<longrightarrow>
       nodes (fst (ensure_jacoco w p)) = nodes w \<and> snd (ensure_jacoco w p) = Inr ()) \<and>
   nodes (fst (ensure_jacoco (fst (ensure_jacoco w p)) p)) = nodes (fst (ensure_jacoco w p))"
proof (rule conjI)
  show "\<forall>content. read_text w p = Inr content \<and> contains ''jacocoTestReport'' content \<and>
       contains ''jacoco'' content \<longrightarrow>
       nodes (fst (ensure_jacoco w p)) = nodes w \<and> snd (ensure_jacoco w p) = Inr ()"
    using ensure_jacoco_configured [of w p] by (simp add: print_def)
next
  show "nodes (fst (ensure_jacoco (fst (ensure_jacoco w p)) p)) = nodes (fst (ensure_jacoco w p))"
  proof (cases "\<exists>content. read_text w p = Inr content")
    case False
    then have n: "nodes (fst (ensure_jacoco w p)) = nodes w"
      using ensure_jacoco_other by blast
    have c: "cwd (fst (ensure_jacoco w p)) = cwd w"
      using False by (auto simp: ensure_jacoco_def print_def split: sum.splits)
    have "read_text (fst (ensure_jacoco w p)) p = read_text w p"
      by (simp add: read_text_def node_at_def resolve_def n c)
    then have "\<forall>content. read_text (fst (ensure_jacoco w p)) p \<noteq> Inr content"
      using False by simp
    then show ?thesis using ensure_jacoco_other by blast
  next
    case True
    then obtain content where r: "read_text w p = Inr content" by blast
    show ?thesis
    proof (cases "contains ''jacocoTestReport'' content \<and> contains ''jacoco'' content")
      case True
      then have e: "ensure_jacoco w p = (print ''JaCoCo configuration already detected.'' w, Inr ())"
        using ensure_jacoco_configured [OF r] by blast
      have "read_text (print ''JaCoCo configuration already detected.'' w) p = Inr content"
        using r by (simp add: read_text_print)
      then have "ensure_jacoco (print ''JaCoCo configuration already detected.'' w) p =
          (print ''JaCoCo configuration already detected.''
             (print ''JaCoCo configuration already detected.'' w), Inr ())"
        using ensure_jacoco_configured True by blast
      then show ?thesis unfolding e by (simp add: print_def)
    next
      case False
      let ?new = "rstrip content @ ''\<newline>\<newline>'' @ JACOCO_SNIPPET"
      let ?w1 = "print (''Appended JaCoCo configuration to '' @ path_str p)
        (w\<lparr>nodes := (nodes w)(resolve w p \<mapsto> File ?new)\<rparr>)"
      have e: "ensure_jacoco w p = (?w1, Inr ())"
        using ensure_jacoco_appends [OF r False] .
      have "CHR 0x0D \<notin> set content"
        using r universal_newlines_no_cr by (auto simp: read_text_Inr)
      then have r1: "read_text ?w1 p = Inr ?new"
        using read_text_after_write [OF r, of _ ?new] appended_no_cr by simp
      have m: "contains ''jacocoTestReport'' ?new" "contains ''jacoco'' ?new"
        using JACOCO_SNIPPET_markers contains_append [of _ JACOCO_SNIPPET "rstrip content @ ''\<newline>\<newline>''"]
        by simp_all
      have "ensure_jacoco ?w1 p = (print ''JaCoCo configuration already detected.'' ?w1, Inr ())"
        using ensure_jacoco_configured [OF r1 m] .
      then show ?thesis unfolding e by (simp add: print_def)
    qed
  qed
qed

theorem ensure_jacoco_idempotent_witness:
  "read_text (\<lparr>cwd = \<lparr>anchor = ''/'', parts = []\<rparr>,
       nodes = [\<lparr>anchor = ''/'', parts = [''app'']\<rparr> \<mapsto> Dir,
                \<lparr>anchor = ''/'', parts = [''app'', ''build.gradle'']\<rparr> \<mapsto> File ''jacocoTestReport {}''],
       stdout = []\<rparr>) \<lparr>anchor = [], parts = [''app'', ''build.gradle'']\<rparr> = Inr ''jacocoTestReport {}'' \<and>
   contains ''jacocoTestReport'' ''jacocoTestReport {}'' \<and>
   contains ''jacoco'' ''jacocoTestReport {}'' \<and>
   nodes (fst (ensure_jacoco (\<lparr>cwd = \<lparr>anchor = ''/'', parts = []\<rparr>,
       nodes = [\<lparr>anchor = ''/'', parts = [''app'']\<rparr> \<mapsto> Dir,
                \<lparr>anchor = ''/'', parts = [''app'', ''build.gradle'']\<rparr> \<mapsto> File ''jacocoTestReport {}''],
       stdout = []\<rparr>) \<lparr>anchor = [], parts = [''app'', ''build.gradle'']\<rparr>)) = nodes (\<lparr>cwd = \<lparr>anchor = ''/'', parts = []\<rparr>,
       nodes = [\<lparr>anchor = ''/'', parts = [''app'']\<rparr> \<mapsto> Dir,
                \<lparr>anchor = ''/'', parts = [''app'', ''build.gradle'']\<rparr> \<mapsto> File ''jacocoTestReport {}''],
       stdout = []\<rparr>) \<and>
   snd (ensure_jacoco (\<lparr>cwd = \<lparr>anchor = ''/'', parts = []\<rparr>,
       nodes = [\<lparr>anchor = ''/'', parts = [''app'']\<rparr> \<mapsto> Dir,
                \<lparr>anchor = ''/'', parts = [''app'', ''build.gradle'']\<rparr> \<mapsto> File ''jacocoTestReport {}''],
       stdout = []\<rparr>) \<lparr>anchor = [], parts = [''app'', ''build.gradle'']\<rparr>) = Inr () \<and>
   nodes (fst (ensure_jacoco (fst (ensure_jacoco (\<lparr>cwd = \<lparr>anchor = ''/'', parts = []\<rparr>,
       nodes = [\<lparr>anchor = ''/'', parts = [''app'']\<rparr> \<mapsto> Dir,
                \<lparr>anchor = ''/'', parts = [''app'', ''build.gradle'']\<rparr> \<mapsto> File ''android {}''],
       stdout = []\<rparr>) \<lparr>anchor = [], parts = [''app'', ''build.gradle'']\<rparr>)) \<lparr>anchor = [], parts = [''app'', ''build.gradle'']\<rparr>)) = nodes (fst (ensure_jacoco (\<lparr>cwd = \<lparr>anchor = ''/'', parts = []\<rparr>,
       nodes = [\<lparr>anchor = ''/'', parts = [''app'']\<rparr> \<mapsto> Dir,
                \<lparr>anchor = ''/'', parts = [''app'', ''build.gradle'']\<rparr> \<mapsto> File ''android {}''],
       stdout = []\<rparr>) \<lparr>anchor = [], parts = [''app'', ''build.gradle'']\<rparr>))"
proof -
  have r: "read_text (\<lparr>cwd = \<lparr>anchor = ''/'', parts = []\<rparr>,
       nodes = [\<lparr>anchor = ''/'', parts = [''app'']\<rparr> \<mapsto> Dir,
                \<lparr>anchor = ''/'', parts = [''app'', ''build.gradle'']\<rparr> \<mapsto> File ''jacocoTestReport {}''],
       stdout = []\<rparr>) \<lparr>anchor = [], parts = [''app'', ''build.gradle'']\<rparr> = Inr ''jacocoTestReport {}''"
    by (simp add: example_gradle_read)
  have c: "contains ''jacocoTestReport'' ''jacocoTestReport {}''"
    "contains ''jacoco'' ''jacocoTestReport {}''"
    by simp_all
  show ?thesis
    using r c ensure_jacoco_idempotent [of "(\<lparr>cwd = \<lparr>anchor = ''/'', parts = []\<rparr>,
       nodes = [\<lparr>anchor = ''/'', parts = [''app'']\<rparr> \<mapsto> Dir,
                \<lparr>anchor = ''/'', parts = [''app'', ''build.gradle'']\<rparr> \<mapsto> File ''jacocoTestReport {}''],
       stdout = []\<rparr>)" "\<lparr>anchor = [], parts = [''app'', ''build.gradle'']\<rparr>"]
      ensure_jacoco_idempotent [of "(\<lparr>cwd = \<lparr>anchor = ''/'', parts = []\<rparr>,
       nodes = [\<lparr>anchor = ''/'', parts = [''app'']\<rparr> \<mapsto> Dir,
                \<lparr>anchor = ''/'', parts = [''app'', ''build.gradle'']\<rparr> \<mapsto> File ''android {}''],
       stdout = []\<rparr>)" "\<lparr>anchor = [], parts = [''app'', ''build.gradle'']\<rparr>"]
    by blast
qed

subsection \<open>What the augmenter keeps\<close>

text \<open>
  C8. When the augmenter changes the build file, the file then holds the old text as it
  is read in text mode (every carriage return, with or without its line feed, turned
  into one line feed), without its trailing whitespace, then two newlines, then the
  fixed block; no other file changes. The text as read is kept as a prefix up to its
  trailing whitespace; the stored text itself is kept so when it holds no carriage
  return.
\<close>

theorem ensure_jacoco_additive:
  assumes "node_at w (resolve w p) = Some (File stored)"
    and "\<not> (contains ''jacocoTestReport'' (universal_newlines stored) \<and>
             contains ''jacoco'' (universal_newlines stored))"
  shows "snd (ensure_jacoco w p) = Inr () \<and>
     node_at (fst (ensure_jacoco w p)) (resolve w p) =
       Some (File (rstrip (universal_newlines stored) @ ''\<newline>\<newline>'' @ JACOCO_SNIPPET)) \<and>
     (\<forall>q. q \<noteq> resolve w p \<longrightarrow> nodes (fst (ensure_jacoco w p)) q = nodes w q) \<and>
     (\<exists>ws. universal_newlines stored = rstrip (universal_newlines stored) @ ws \<and>
           (\<forall>ch \<in> set ws. is_space ch)) \<and>
     (CHR 0x0D \<notin> set stored \<longrightarrow> universal_newlines stored = stored)"
proof -
  let ?content = "universal_newlines stored"
  have r: "read_text w p = Inr ?content" using assms(1) by (auto simp: read_text_Inr)
  have e: "ensure_jacoco w p =
     (print (''Appended JaCoCo configuration to '' @ path_str p)
        (w\<lparr>nodes := (nodes w)(resolve w p \<mapsto>
              File (rstrip ?content @ ''\<newline>\<newline>'' @ JACOCO_SNIPPET))\<rparr>), Inr ())"
    using ensure_jacoco_appends [OF r assms(2)] .
  have ne: "parts (resolve w p) \<noteq> []"
    using assms(1) by (auto simp: node_at_def split: if_splits)
  have 1: "node_at (fst (ensure_jacoco w p)) (resolve w p) =
       Some (File (rstrip ?content @ ''\<newline>\<newline>'' @ JACOCO_SNIPPET))"
    unfolding e using ne by (simp add: node_at_def print_def)
  have 2: "\<forall>q. q \<noteq> resolve w p \<longrightarrow> nodes (fst (ensure_jacoco w p)) q = nodes w q"
    unfolding e by (simp add: print_def)
  have "\<forall>ch \<in> set (rev (takeWhile is_space (rev ?content))). is_space ch"
    by (auto dest: set_takeWhileD)
  then have 3: "\<exists>ws. ?content = rstrip ?content @ ws \<and> (\<forall>ch \<in> set ws. is_space ch)"
    using rstrip_split [of ?content] by blast
  have 4: "CHR 0x0D \<notin> set stored \<longrightarrow> ?content = stored"
    by (simp add: universal_newlines_id)
  show ?thesis using e 1 2 3 4 by simp
qed

theorem ensure_jacoco_additive_witness:
  "node_at (\<lparr>cwd = \<lparr>anchor = ''/'', parts = []\<rparr>,
       nodes = [\<lparr>anchor = ''/'', parts = [''app'']\<rparr> \<mapsto> Dir,
                \<lparr>anchor = ''/'', parts = [''app'', ''build.gradle'']\<rparr> \<mapsto> File (''android {}  \<newline>'')],
       stdout = []\<rparr>) (resolve (\<lparr>cwd = \<lparr>anchor = ''/'', parts = []\<rparr>,
       nodes = [\<lparr>anchor = ''/'', parts = [''app'']\<rparr> \<mapsto> Dir,
                \<lparr>anchor = ''/'', parts = [''app'', ''build.gradle'']\<rparr> \<mapsto> File (''android {}  \<newline>'')],
       stdout = []\<rparr>) \<lparr>anchor = [], parts = [''app'', ''build.gradle'']\<rparr>) = Some (File ''android {}  \<newline>'') \<and>
   universal_newlines ''android {}  \<newline>'' = ''android {}  \<newline>'' \<and>
   \<not> (contains ''jacocoTestReport'' ''android {}  \<newline>'' \<and> contains ''jacoco'' ''android {}  \<newline>'') \<and>
   snd (ensure_jacoco (\<lparr>cwd = \<lparr>anchor = ''/'', parts = []\<rparr>,
       nodes = [\<lparr>anchor = ''/'', parts = [''app'']\<rparr> \<mapsto> Dir,
                \<lparr>anchor = ''/'', parts = [''app'', ''build.gradle'']\<rparr> \<mapsto> File (''android {}  \<newline>'')],
       stdout = []\<rparr>) \<lparr>anchor = [], parts = [''app'', ''build.gradle'']\<rparr>) = Inr () \<and>
   node_at (fst (ensure_jacoco (\<lparr>cwd = \<lparr>anchor = ''/'', parts = []\<rparr>,
       nodes = [\<lparr>anchor = ''/'', parts = [''app'']\<rparr> \<mapsto> Dir,
                \<lparr>anchor = ''/'', parts = [''app'', ''build.gradle'']\<rparr> \<mapsto> File (''android {}  \<newline>'')],
       stdout = []\<rparr>) \<lparr>anchor = [], parts = [''app'', ''build.gradle'']\<rparr>)) \<lparr>anchor = ''/'', parts = [''app'', ''build.gradle'']\<rparr> =
     Some (File (''android {}'' @ ''\<newline>\<newline>'' @ JACOCO_SNIPPET)) \<and>
   rstrip ''android {}  \<newline>'' = ''android {}''"
proof -
  have n: "node_at (\<lparr>cwd = \<lparr>anchor = ''/'', parts = []\<rparr>,
       nodes = [\<lparr>anchor = ''/'', parts = [''app'']\<rparr> \<mapsto> Dir,
                \<lparr>anchor = ''/'', parts = [''app'', ''build.gradle'']\<rparr> \<mapsto> File (''android {}  \<newline>'')],
       stdout = []\<rparr>) (resolve (\<lparr>cwd = \<lparr>anchor = ''/'', parts = []\<rparr>,
       nodes = [\<lparr>anchor = ''/'', parts = [''app'']\<rparr> \<mapsto> Dir,
                \<lparr>anchor = ''/'', parts = [''app'', ''build.gradle'']\<rparr> \<mapsto> File (''android {}  \<newline>'')],
       stdout = []\<rparr>) \<lparr>anchor = [], parts = [''app'', ''build.gradle'']\<rparr>) = Some (File ''android {}  \<newline>'')"
    by (simp add: node_at_def resolve_def joinpath_def)
  have q: "resolve (\<lparr>cwd = \<lparr>anchor = ''/'', parts = []\<rparr>,
       nodes = [\<lparr>anchor = ''/'', parts = [''app'']\<rparr> \<mapsto> Dir,
                \<lparr>anchor = ''/'', parts = [''app'', ''build.gradle'']\<rparr> \<mapsto> File (''android {}  \<newline>'')],
       stdout = []\<rparr>) \<lparr>anchor = [], parts = [''app'', ''build.gradle'']\<rparr> = \<lparr>anchor = ''/'', parts = [''app'', ''build.gradle'']\<rparr>"
    by (simp add: resolve_def joinpath_def)
  have u: "universal_newlines ''android {}  \<newline>'' = ''android {}  \<newline>''"
    by (simp add: universal_newlines_id)
  have c: "\<not> (contains ''jacocoTestReport'' (universal_newlines ''android {}  \<newline>'') \<and>
              contains ''jacoco'' (universal_newlines ''android {}  \<newline>''))"
    unfolding u by simp
  have s: "rstrip ''android {}  \<newline>'' = ''android {}''"
    by (simp add: rstrip_def is_space_def)
  show ?thesis
    using n c s ensure_jacoco_additive [OF n c] unfolding u q by simp
qed

theorem ensure_jacoco_prefix_counterexample:
  "node_at (\<lparr>cwd = \<lparr>anchor = ''/'', parts = []\<rparr>,
       nodes = [\<lparr>anchor = ''/'', parts = [''app'']\<rparr> \<mapsto> Dir,
                \<lparr>anchor = ''/'', parts = [''app'', ''build.gradle'']\<rparr> \<mapsto> File (''android {}  \<newline>'')],
       stdout = []\<rparr>) \<lparr>anchor = ''/'', parts = [''app'', ''build.gradle'']\<rparr> = Some (File ''android {}  \<newline>'') \<and>
   node_at (fst (ensure_jacoco (\<lparr>cwd = \<lparr>anchor = ''/'', parts = []\<rparr>,
       nodes = [\<lparr>anchor = ''/'', parts = [''app'']\<rparr> \<mapsto> Dir,
                \<lparr>anchor = ''/'', parts = [''app'', ''build.gradle'']\<rparr> \<mapsto> File (''android {}  \<newline>'')],
       stdout = []\<rparr>) \<lparr>anchor = [], parts = [''app'', ''build.gradle'']\<rparr>)) \<lparr>anchor = ''/'', parts = [''app'', ''build.gradle'']\<rparr> =
     Some (File (''android {}'' @ ''\<newline>\<newline>'' @ JACOCO_SNIPPET)) \<and>
   take (length ''android {}  \<newline>'') (''android {}'' @ ''\<newline>\<newline>'' @ JACOCO_SNIPPET) \<noteq> ''android {}  \<newline>'' \<and>
   node_at (\<lparr>cwd = \<lparr>anchor = ''/'', parts = []\<rparr>,
       nodes = [\<lparr>anchor = ''/'', parts = [''app'']\<rparr> \<mapsto> Dir,
                \<lparr>anchor = ''/'', parts = [''app'', ''build.gradle'']\<rparr> \<mapsto> File (''android {'' @ [CHR 0x0D, CHR ''\<newline>''] @ ''}'' @ [CHR 0x0D, CHR ''\<newline>''] @ ''x'')],
       stdout = []\<rparr>) \<lparr>anchor = ''/'', parts = [''app'', ''build.gradle'']\<rparr> = Some (File (''android {'' @ [CHR 0x0D, CHR ''\<newline>''] @ ''}'' @ [CHR 0x0D, CHR ''\<newline>''] @ ''x'')) \<and>
   node_at (fst (ensure_jacoco (\<lparr>cwd = \<lparr>anchor = ''/'', parts = []\<rparr>,
       nodes = [\<lparr>anchor = ''/'', parts = [''app'']\<rparr> \<mapsto> Dir,
                \<lparr>anchor = ''/'', parts = [''app'', ''build.gradle'']\<rparr> \<mapsto> File (''android {'' @ [CHR 0x0D, CHR ''\<newline>''] @ ''}'' @ [CHR 0x0D, CHR ''\<newline>''] @ ''x'')],
       stdout = []\<rparr>) \<lparr>anchor = [], parts = [''app'', ''build.gradle'']\<rparr>)) \<lparr>anchor = ''/'', parts = [''app'', ''build.gradle'']\<rparr> =
     Some (File (''android {\<newline>}\<newline>x'' @ ''\<newline>\<newline>'' @ JACOCO_SNIPPET)) \<and>
   take (length (''android {'' @ [CHR 0x0D, CHR ''\<newline>''] @ ''}'' @ [CHR 0x0D, CHR ''\<newline>''] @ ''x'')) (''android {\<newline>}\<newline>x'' @ ''\<newline>\<newline>'' @ JACOCO_SNIPPET) \<noteq> ''android {'' @ [CHR 0x0D, CHR ''\<newline>''] @ ''}'' @ [CHR 0x0D, CHR ''\<newline>''] @ ''x''"
  by (simp add: ensure_jacoco_def exists_def read_text_def write_text_def node_at_def resolve_def
      joinpath_def print_def Let_def rstrip_def is_space_def universal_newlines_def)

subsection \<open>Facts about the writer\<close>

text \<open>
  A test path is relative and the working directory is absolute, so \<^verbatim>\<open>relative_to\<close>
  raises for every file that was written: a run returns only if it skipped every unit.
  A unit whose test file exists is skipped without a change to any file.
\<close>

lemma path_of_str_parts_nonempty: "[] \<notin> set (parts (path_of_str s))"
  by (simp add: path_of_str_def)

lemma joinpath_parts_nonempty:
  "[] \<notin> set (parts p) \<Longrightarrow> [] \<notin> set (parts q) \<Longrightarrow> [] \<notin> set (parts (joinpath p q))"
  by (simp add: joinpath_def)

lemma foldl_joinpath_nonempty:
  "[] \<notin> set (parts p) \<Longrightarrow> \<forall>q \<in> set qs. [] \<notin> set (parts q) \<Longrightarrow>
   [] \<notin> set (parts (foldl joinpath p qs))"
  by (induction qs arbitrary: p) (simp_all add: joinpath_parts_nonempty)

lemma Path_parts_nonempty: "[] \<notin> set (parts (Path args))"
  unfolding Path_def
  by (rule foldl_joinpath_nonempty) (simp_all add: path_of_str_parts_nonempty)

lemma test_path_parts_nonempty: "[] \<notin> set (parts (test_path c))"
  unfolding test_path_def Let_def
  by (intro joinpath_parts_nonempty Path_parts_nonempty path_of_str_parts_nonempty)
     (simp_all add: Path_parts_nonempty)

lemma relative_to_ValueError:
  assumes "anchor p = []" and "anchor other \<noteq> []" and "[] \<notin> set (parts p)"
  shows "relative_to p other = Inl ValueError"
proof -
  have "take (Suc (Suc (length (parts other)))) (parts p) \<noteq> [] # anchor other # parts other"
    using assms(3) by (cases "parts p") auto
  then show ?thesis using assms(1,2) by (simp add: relative_to_def abs_parts_def Let_def)
qed

lemma os_mkdir_cwd: "os_mkdir w p = Inr w' \<Longrightarrow> cwd w' = cwd w"
  by (auto simp: os_mkdir_def Let_def split: if_splits option.splits node.splits)

lemma mkdir_rev_cwd: "mkdir_rev w a rs = Inr w' \<Longrightarrow> cwd w' = cwd w"
proof (induction rs arbitrary: w w')
  case Nil
  then show ?case by (auto split: sum.splits if_splits dest: os_mkdir_cwd)
next
  case (Cons x rs)
  then show ?case
    by (auto simp: Let_def split: sum.splits if_splits dest: os_mkdir_cwd)
qed

lemma ensure_directory_cwd: "ensure_directory w p = Inr w' \<Longrightarrow> cwd w' = cwd w"
  unfolding ensure_directory_def mkdir_def by (rule mkdir_rev_cwd)

lemma write_text_cwd: "write_text w p t = Inr w' \<Longrightarrow> cwd w' = cwd w"
  by (auto simp: write_text_def Let_def split: option.splits node.splits)

lemma write_tests_loop_returns:
  assumes "anchor (cwd w) \<noteq> []" and "\<forall>c \<in> set cs. anchor (test_path c) = []"
    and "write_tests_loop set_order cs force written w = (w', Inr ps)"
  shows "ps = written"
  using assms
proof (induction cs arbitrary: w)
  case Nil
  then show ?case by simp
next
  case (Cons c cs)
  let ?d = "test_path c"
  from Cons.prems(3) obtain w1 where w1: "ensure_directory w ?d = Inr w1"
    by (cases "ensure_directory w ?d") (auto simp: Let_def)
  have c1: "cwd w1 = cwd w" using ensure_directory_cwd [OF w1] .
  show ?case
  proof (cases "exists w1 ?d \<and> \<not> force")
    case True
    let ?w2 = "print (''Skipping '' @ path_str ?d @ '' (already exists). Use --force to overwrite.'') w1"
    have "write_tests_loop set_order cs force written ?w2 = (w', Inr ps)"
      using Cons.prems(3) w1 True by (simp add: Let_def)
    moreover have "anchor (cwd ?w2) \<noteq> []" using Cons.prems(1) c1 by (simp add: print_def)
    ultimately show ?thesis using Cons.IH Cons.prems(2) by simp
  next
    case False
    from Cons.prems(3) False w1 obtain w2 where w2: "write_text w1 ?d (test_class set_order c) = Inr w2"
      by (cases "write_text w1 ?d (test_class set_order c)") (auto simp: Let_def)
    have "cwd w2 = cwd w" using write_text_cwd [OF w2] c1 by simp
    then have "relative_to ?d (cwd w2) = Inl ValueError"
      using relative_to_ValueError [of ?d "cwd w2"] Cons.prems(1,2) test_path_parts_nonempty [of c]
      by simp
    then have "snd (write_tests_loop set_order (c # cs) force written w) = Inl ValueError"
      using w1 w2 False by (auto simp: Let_def)
    then show ?thesis using Cons.prems(3) by simp
  qed
qed

lemma mkdir_rev_existing: "is_dir w \<lparr>anchor = a, parts = rev rs\<rparr> \<Longrightarrow> mkdir_rev w a rs = Inr w"
  by (cases rs) (auto simp: os_mkdir_def is_dir_def Let_def)

lemma mkdir_existing: "is_dir w p \<Longrightarrow> mkdir w p = Inr w"
  unfolding mkdir_def using mkdir_rev_existing [of w "anchor p" "rev (parts p)"]
  by (cases p) simp

lemma write_tests_skips:
  assumes "is_dir w (parent (test_path c))" and "exists w (test_path c)"
  shows "write_tests set_order [c] False w =
     (print (''Skipping '' @ path_str (test_path c) @
             '' (already exists). Use --force to overwrite.'') w, Inr [])"
  using assms mkdir_existing [OF assms(1)]
  by (simp add: write_tests_def ensure_directory_def Let_def)

lemma example_test_path:
  "test_path (\<lparr>name = ''LoginActivity'', package = ''com.app'',
      file_path = \<lparr>anchor = [], parts = [''LoginActivity.java'']\<rparr>, type = ''Activity''\<rparr>) =
     \<lparr>anchor = [], parts = [''app'', ''src'', ''test'', ''java'', ''com'', ''app'',
        ''LoginActivityTest.java'']\<rparr>"
  by (simp add: test_path_parts)

lemma example_second_run:
  "write_tests remdups [(\<lparr>name = ''LoginActivity'', package = ''com.app'',
      file_path = \<lparr>anchor = [], parts = [''LoginActivity.java'']\<rparr>, type = ''Activity''\<rparr>)] False (\<lparr>cwd = \<lparr>anchor = ''/'', parts = [''proj'']\<rparr>,
      nodes = [\<lparr>anchor = ''/'', parts = [''proj'']\<rparr> \<mapsto> Dir,
        \<lparr>anchor = ''/'', parts = [''proj'', ''app'']\<rparr> \<mapsto> Dir,
        \<lparr>anchor = ''/'', parts = [''proj'', ''app'', ''src'']\<rparr> \<mapsto> Dir,
        \<lparr>anchor = ''/'', parts = [''proj'', ''app'', ''src'', ''test'']\<rparr> \<mapsto> Dir,
        \<lparr>anchor = ''/'', parts = [''proj'', ''app'', ''src'', ''test'', ''java'']\<rparr> \<mapsto> Dir,
        \<lparr>anchor = ''/'', parts = [''proj'', ''app'', ''src'', ''test'', ''java'', ''com'']\<rparr> \<mapsto> Dir,
        \<lparr>anchor = ''/'', parts = [''proj'', ''app'', ''src'', ''test'', ''java'', ''com'', ''app'']\<rparr> \<mapsto> Dir,
        \<lparr>anchor = ''/'', parts = [''proj'', ''app'', ''src'', ''test'', ''java'', ''com'', ''app'', ''LoginActivityTest.java'']\<rparr> \<mapsto> File (''old'')],
      stdout = []\<rparr>) =
     (\<lparr>cwd = \<lparr>anchor = ''/'', parts = [''proj'']\<rparr>,
      nodes = [\<lparr>anchor = ''/'', parts = [''proj'']\<rparr> \<mapsto> Dir,
        \<lparr>anchor = ''/'', parts = [''proj'', ''app'']\<rparr> \<mapsto> Dir,
        \<lparr>anchor = ''/'', parts = [''proj'', ''app'', ''src'']\<rparr> \<mapsto> Dir,
        \<lparr>anchor = ''/'', parts = [''proj'', ''app'', ''src'', ''test'']\<rparr> \<mapsto> Dir,
        \<lparr>anchor = ''/'', parts = [''proj'', ''app'', ''src'', ''test'', ''java'']\<rparr> \<mapsto> Dir,
        \<lparr>anchor = ''/'', parts = [''proj'', ''app'', ''src'', ''test'', ''java'', ''com'']\<rparr> \<mapsto> Dir,
        \<lparr>anchor = ''/'', parts = [''proj'', ''app'', ''src'', ''test'', ''java'', ''com'', ''app'']\<rparr> \<mapsto> Dir,
        \<lparr>anchor = ''/'', parts = [''proj'', ''app'', ''src'', ''test'', ''java'', ''com'', ''app'', ''LoginActivityTest.java'']\<rparr> \<mapsto> File (''old'')],
      stdout = [''Skipping app/src/test/java/com/app/LoginActivityTest.java (already exists). Use --force to overwrite.'']\<rparr>, Inr [])"
  by (simp add: write_tests_def example_test_path ensure_directory_def mkdir_def os_mkdir_def
      node_at_def resolve_def joinpath_def parent_def exists_def write_text_def relative_to_def
      abs_parts_def is_dir_def Let_def print_def path_str_def)

subsection \<open>Writing and skipping\<close>

text \<open>
  C6. With the destination absent, or with \<^verbatim>\<open>force\<close> set and the destination present,
  the writer writes the generated text, and then raises \<^verbatim>\<open>ValueError\<close> while it prints
  the path: no sequence is returned. Here for one unit in a project directory, once in a
  fresh project and once forced over an old test file.
\<close>

theorem write_tests_raises:
  "write_tests remdups [(\<lparr>name = ''LoginActivity'', package = ''com.app'',
      file_path = \<lparr>anchor = [], parts = [''LoginActivity.java'']\<rparr>, type = ''Activity''\<rparr>)] False (\<lparr>cwd = \<lparr>anchor = ''/'', parts = [''proj'']\<rparr>,
      nodes = [\<lparr>anchor = ''/'', parts = [''proj'']\<rparr> \<mapsto> Dir], stdout = []\<rparr>) = (\<lparr>cwd = \<lparr>anchor = ''/'', parts = [''proj'']\<rparr>,
      nodes = [\<lparr>anchor = ''/'', parts = [''proj'']\<rparr> \<mapsto> Dir,
        \<lparr>anchor = ''/'', parts = [''proj'', ''app'']\<rparr> \<mapsto> Dir,
        \<lparr>anchor = ''/'', parts = [''proj'', ''app'', ''src'']\<rparr> \<mapsto> Dir,
        \<lparr>anchor = ''/'', parts = [''proj'', ''app'', ''src'', ''test'']\<rparr> \<mapsto> Dir,
        \<lparr>anchor = ''/'', parts = [''proj'', ''app'', ''src'', ''test'', ''java'']\<rparr> \<mapsto> Dir,
        \<lparr>anchor = ''/'', parts = [''proj'', ''app'', ''src'', ''test'', ''java'', ''com'']\<rparr> \<mapsto> Dir,
        \<lparr>anchor = ''/'', parts = [''proj'', ''app'', ''src'', ''test'', ''java'', ''com'', ''app'']\<rparr> \<mapsto> Dir,
        \<lparr>anchor = ''/'', parts = [''proj'', ''app'', ''src'', ''test'', ''java'', ''com'', ''app'', ''LoginActivityTest.java'']\<rparr> \<mapsto> File (test_class remdups (\<lparr>name = ''LoginActivity'', package = ''com.app'',
      file_path = \<lparr>anchor = [], parts = [''LoginActivity.java'']\<rparr>, type = ''Activity''\<rparr>))],
      stdout = []\<rparr>, Inl ValueError) \<and>
   write_tests remdups [(\<lparr>name = ''LoginActivity'', package = ''com.app'',
      file_path = \<lparr>anchor = [], parts = [''LoginActivity.java'']\<rparr>, type = ''Activity''\<rparr>)] True (\<lparr>cwd = \<lparr>anchor = ''/'', parts = [''proj'']\<rparr>,
      nodes = [\<lparr>anchor = ''/'', parts = [''proj'']\<rparr> \<mapsto> Dir,
        \<lparr>anchor = ''/'', parts = [''proj'', ''app'']\<rparr> \<mapsto> Dir,
        \<lparr>anchor = ''/'', parts = [''proj'', ''app'', ''src'']\<rparr> \<mapsto> Dir,
        \<lparr>anchor = ''/'', parts = [''proj'', ''app'', ''src'', ''test'']\<rparr> \<mapsto> Dir,
        \<lparr>anchor = ''/'', parts = [''proj'', ''app'', ''src'', ''test'', ''java'']\<rparr> \<mapsto> Dir,
        \<lparr>anchor = ''/'', parts = [''proj'', ''app'', ''src'', ''test'', ''java'', ''com'']\<rparr> \<mapsto> Dir,
        \<lparr>anchor = ''/'', parts = [''proj'', ''app'', ''src'', ''test'', ''java'', ''com'', ''app'']\<rparr> \<mapsto> Dir,
        \<lparr>anchor = ''/'', parts = [''proj'', ''app'', ''src'', ''test'', ''java'', ''com'', ''app'', ''LoginActivityTest.java'']\<rparr> \<mapsto> File (''old'')],
      stdout = []\<rparr>) = (\<lparr>cwd = \<lparr>anchor = ''/'', parts = [''proj'']\<rparr>,
      nodes = [\<lparr>anchor = ''/'', parts = [''proj'']\<rparr> \<mapsto> Dir,
        \<lparr>anchor = ''/'', parts = [''proj'', ''app'']\<rparr> \<mapsto> Dir,
        \<lparr>anchor = ''/'', parts = [''proj'', ''app'', ''src'']\<rparr> \<mapsto> Dir,
        \<lparr>anchor = ''/'', parts = [''proj'', ''app'', ''src'', ''test'']\<rparr> \<mapsto> Dir,
        \<lparr>anchor = ''/'', parts = [''proj'', ''app'', ''src'', ''test'', ''java'']\<rparr> \<mapsto> Dir,
        \<lparr>anchor = ''/'', parts = [''proj'', ''app'', ''src'', ''test'', ''java'', ''com'']\<rparr> \<mapsto> Dir,
        \<lparr>anchor = ''/'', parts = [''proj'', ''app'', ''src'', ''test'', ''java'', ''com'', ''app'']\<rparr> \<mapsto> Dir,
        \<lparr>anchor = ''/'', parts = [''proj'', ''app'', ''src'', ''test'', ''java'', ''com'', ''app'', ''LoginActivityTest.java'']\<rparr> \<mapsto> File (test_class remdups (\<lparr>name = ''LoginActivity'', package = ''com.app'',
      file_path = \<lparr>anchor = [], parts = [''LoginActivity.java'']\<rparr>, type = ''Activity''\<rparr>))],
      stdout = []\<rparr>, Inl ValueError)"
  by (simp add: write_tests_def example_test_path ensure_directory_def mkdir_def os_mkdir_def
      node_at_def resolve_def joinpath_def parent_def exists_def write_text_def relative_to_def
      abs_parts_def is_dir_def Let_def)

subsection \<open>Facts about rounding\<close>

lemma round_half_even_of_int: "round_half_even (of_int k) = k"
  by (simp add: round_half_even_def)

lemma round_half_even_floor: "\<lfloor>y\<rfloor> \<le> round_half_even y \<and> round_half_even y \<le> \<lfloor>y\<rfloor> + 1"
  by (simp add: round_half_even_def Let_def)

lemma round_half_even_mono:
  assumes "y \<le> z"
  shows "round_half_even y \<le> round_half_even z"
proof (cases "\<lfloor>y\<rfloor> = \<lfloor>z\<rfloor>")
  case True
  then show ?thesis using assms by (auto simp: round_half_even_def Let_def)
next
  case False
  then have "\<lfloor>y\<rfloor> + 1 \<le> \<lfloor>z\<rfloor>" using floor_mono [OF assms] by simp
  then show ?thesis
    using round_half_even_floor [of y] round_half_even_floor [of z] by linarith
qed

lemma power_int_nat: "0 \<le> n \<Longrightarrow> (2 :: rat) powi n = of_int (2 ^ nat n)"
  by (simp add: power_int_def)

lemma power_int_multiple:
  assumes "a \<le> b"
  shows "(2 :: rat) powi b = of_int (2 ^ nat (b - a)) * 2 powi a"
proof -
  have "(2 :: rat) powi b = 2 powi ((b - a) + a)" by simp
  also have "\<dots> = 2 powi (b - a) * 2 powi a" by (rule power_int_add) simp
  also have "\<dots> = of_int (2 ^ nat (b - a)) * 2 powi a"
    using assms by (simp add: power_int_nat)
  finally show ?thesis .
qed

lemma power_int_pos: "0 < (2 :: rat) powi n"
  by simp

lemma power_int_less_exp:
  assumes "(2 :: rat) powi a < 2 powi b"
  shows "a < b"
proof (rule ccontr)
  assume "\<not> a < b"
  then have "b \<le> a" by simp
  then have "(2 :: rat) powi b \<le> 2 powi a" by (intro power_int_increasing) simp_all
  then show False using assms by simp
qed

lemma ilog2_bounds:
  assumes "0 < x"
  shows "2 powi ilog2 x \<le> x \<and> x < 2 powi (ilog2 x + 1)"
proof (cases "1 \<le> x")
  case True
  let ?n = "\<lfloor>x\<rfloor>"
  have n: "0 < ?n" using True by simp
  have b: "2 ^ nat (bitlen ?n - 1) \<le> ?n" "?n < 2 ^ nat (bitlen ?n)"
    using bitlen_bounds [OF n] by simp_all
  have p: "1 \<le> bitlen ?n"
    using n bitlen_eq_zero_iff [of ?n] bitlen_nonneg [of ?n] by linarith
  have e: "ilog2 x = bitlen ?n - 1" using True by (simp add: ilog2_def)
  have "(2 :: rat) powi (bitlen ?n - 1) = of_int (2 ^ nat (bitlen ?n - 1))"
    using p by (simp add: power_int_nat)
  also have "\<dots> \<le> of_int ?n" using b(1) by (simp only: of_int_le_iff)
  also have "\<dots> \<le> x" by simp
  finally have lo: "2 powi ilog2 x \<le> x" using e by simp
  have "?n + 1 \<le> 2 ^ nat (bitlen ?n)" using b(2) by simp
  then have "(of_int (?n + 1) :: rat) \<le> of_int (2 ^ nat (bitlen ?n))"
    by (simp only: of_int_le_iff)
  moreover have "x < of_int (?n + 1)" using floor_correct [of x] by simp
  moreover have "(2 :: rat) powi (bitlen ?n) = of_int (2 ^ nat (bitlen ?n))"
    using p by (simp add: power_int_nat)
  ultimately have "x < 2 powi (bitlen ?n)" by linarith
  then have hi: "x < 2 powi (ilog2 x + 1)" using e by simp
  show ?thesis using lo hi by simp
next
  case False
  let ?c = "\<lceil>1 / x\<rceil>"
  let ?k = "bitlen (?c - 1)"
  have x1: "x < 1" using False by simp
  have "1 < 1 / x" using assms x1 by simp
  then have c: "0 < ?c - 1" by (simp add: less_ceiling_iff)
  have b: "2 ^ nat (?k - 1) \<le> ?c - 1" "?c - 1 < 2 ^ nat ?k"
    using bitlen_bounds [OF c] by simp_all
  have p: "1 \<le> ?k"
    using c bitlen_eq_zero_iff [of "?c - 1"] bitlen_nonneg [of "?c - 1"] by linarith
  have e: "ilog2 x = - ?k" using False by (simp add: ilog2_def)
  have "?c \<le> 2 ^ nat ?k" using b(2) by simp
  then have "(of_int ?c :: rat) \<le> of_int (2 ^ nat ?k)" by (simp only: of_int_le_iff)
  moreover have "1 / x \<le> of_int ?c" by simp
  moreover have pk: "(2 :: rat) powi ?k = of_int (2 ^ nat ?k)"
    using p by (simp add: power_int_nat)
  ultimately have "1 / x \<le> 2 powi ?k" by linarith
  then have "1 \<le> 2 powi ?k * x" using assms by (simp add: pos_divide_le_eq)
  then have "1 / 2 powi ?k \<le> x"
    using power_int_pos [of ?k] by (simp add: pos_divide_le_eq mult.commute)
  then have lo: "2 powi ilog2 x \<le> x" using e by (simp add: power_int_minus_divide)
  have "(of_int (2 ^ nat (?k - 1)) :: rat) \<le> of_int (?c - 1)"
    using b(1) by (simp only: of_int_le_iff)
  moreover have "of_int (?c - 1) < 1 / x" using ceiling_correct [of "1 / x"] by simp
  moreover have "(2 :: rat) powi (?k - 1) = of_int (2 ^ nat (?k - 1))"
    using p by (simp add: power_int_nat)
  ultimately have "2 powi (?k - 1) < 1 / x" by linarith
  then have "2 powi (?k - 1) * x < 1" using assms by (simp add: pos_less_divide_eq)
  then have "x < 1 / 2 powi (?k - 1)"
    using power_int_pos [of "?k - 1"] by (simp add: pos_less_divide_eq mult.commute)
  also have "\<dots> = 2 powi (- (?k - 1))" by (simp only: power_int_minus_divide)
  finally have hi: "x < 2 powi (ilog2 x + 1)" using e by simp
  show ?thesis using lo hi by simp
qed

lemma ilog2_eq:
  assumes "2 powi e \<le> x" and "x < 2 powi (e + 1)"
  shows "ilog2 x = e"
proof -
  have x: "0 < x" using assms(1) power_int_pos [of e] by linarith
  have b: "2 powi ilog2 x \<le> x" "x < 2 powi (ilog2 x + 1)" using ilog2_bounds [OF x] by simp_all
  have "(2 :: rat) powi e < 2 powi (ilog2 x + 1)" using assms(1) b(2) by linarith
  then have 1: "e < ilog2 x + 1" by (rule power_int_less_exp)
  have "(2 :: rat) powi ilog2 x < 2 powi (e + 1)" using assms(2) b(1) by linarith
  then have 2: "ilog2 x < e + 1" by (rule power_int_less_exp)
  show ?thesis using 1 2 by simp
qed

lemma ilog2_mono:
  assumes "0 < x" and "x \<le> y"
  shows "ilog2 x \<le> ilog2 y"
proof -
  have y: "0 < y" using assms by simp
  have "(2 :: rat) powi ilog2 x < 2 powi (ilog2 y + 1)"
    using ilog2_bounds [OF assms(1)] ilog2_bounds [OF y] assms(2) by linarith
  then have "ilog2 x < ilog2 y + 1" by (rule power_int_less_exp)
  then show ?thesis by simp
qed


lemma ulp_pos: "0 < ulp x"
  by (simp add: ulp_def)

lemma rnd_nonneg:
  assumes "0 \<le> x"
  shows "0 \<le> rnd x"
proof -
  have "0 \<le> x / ulp x" using assms ulp_pos [of x] by simp
  then have "0 \<le> \<lfloor>x / ulp x\<rfloor>" by simp
  then have "0 \<le> round_half_even (x / ulp x)"
    using round_half_even_floor [of "x / ulp x"] by linarith
  then show ?thesis using ulp_pos [of x] by (simp add: rnd_def)
qed

lemma grid_le:
  assumes "0 < u" and "x \<le> of_int k * u"
  shows "of_int (round_half_even (x / u)) * u \<le> of_int k * u"
proof -
  have "x / u \<le> of_int k" using assms by (simp add: pos_divide_le_eq)
  then have "round_half_even (x / u) \<le> k"
    using round_half_even_mono [of "x / u" "of_int k"] by (simp add: round_half_even_of_int)
  then have "(of_int (round_half_even (x / u)) :: rat) \<le> of_int k" by (simp only: of_int_le_iff)
  then show ?thesis using assms(1) by (simp only: mult_le_cancel_right) simp
qed

lemma grid_ge:
  assumes "0 < u" and "of_int k * u \<le> x"
  shows "of_int k * u \<le> of_int (round_half_even (x / u)) * u"
proof -
  have "of_int k \<le> x / u" using assms by (simp add: pos_le_divide_eq)
  then have "k \<le> round_half_even (x / u)"
    using round_half_even_mono [of "of_int k" "x / u"] by (simp add: round_half_even_of_int)
  then have "(of_int k :: rat) \<le> of_int (round_half_even (x / u))" by (simp only: of_int_le_iff)
  then show ?thesis using assms(1) by (simp only: mult_le_cancel_right) simp
qed

lemma rnd_multiple:
  assumes "rnd r = r" and "r \<noteq> 0" and "a \<le> max (ilog2 r - 52) (- 1074)"
  shows "\<exists>k. r = of_int k * 2 powi a"
proof -
  let ?b = "max (ilog2 r - 52) (- 1074)"
  let ?K = "round_half_even (r / 2 powi ?b)"
  have "r = of_int ?K * 2 powi ?b" using assms(1,2) by (simp add: rnd_def ulp_def)
  also have "\<dots> = of_int ?K * (of_int (2 ^ nat (?b - a)) * 2 powi a)"
    using power_int_multiple [OF assms(3)] by simp
  also have "\<dots> = of_int (?K * 2 ^ nat (?b - a)) * 2 powi a" by simp
  finally show ?thesis by blast
qed

lemma rnd_le:
  assumes "0 < x" and "x \<le> r" and "rnd r = r"
  shows "rnd x \<le> r"
proof -
  let ?a = "max (ilog2 x - 52) (- 1074)"
  have "ilog2 x \<le> ilog2 r" using ilog2_mono [OF assms(1,2)] .
  then have "?a \<le> max (ilog2 r - 52) (- 1074)" by simp
  moreover have "r \<noteq> 0" using assms(1,2) by simp
  ultimately obtain k where k: "r = of_int k * 2 powi ?a"
    using rnd_multiple [OF assms(3)] by blast
  have "of_int (round_half_even (x / 2 powi ?a)) * 2 powi ?a \<le> of_int k * (2 :: rat) powi ?a"
    using grid_le [OF power_int_pos, of x k ?a] assms(2) k by simp
  then show ?thesis using assms(1) k by (simp add: rnd_def ulp_def)
qed

lemma rnd_ge:
  assumes "0 < r" and "r \<le> x" and "rnd r = r"
  shows "r \<le> rnd x"
proof -
  let ?a = "max (ilog2 x - 52) (- 1074)"
  have x: "0 < x" using assms(1,2) by simp
  have rx: "rnd x = of_int (round_half_even (x / 2 powi ?a)) * 2 powi ?a"
    using x by (simp add: rnd_def ulp_def)
  show ?thesis
  proof (cases "?a \<le> max (ilog2 r - 52) (- 1074)")
    case True
    moreover have "r \<noteq> 0" using assms(1) by simp
    ultimately obtain k where k: "r = of_int k * 2 powi ?a"
      using rnd_multiple [OF assms(3)] by blast
    have "of_int k * (2 :: rat) powi ?a \<le> of_int (round_half_even (x / 2 powi ?a)) * 2 powi ?a"
      using grid_ge [OF power_int_pos, of k ?a x] assms(2) k by simp
    then show ?thesis using rx k by simp
  next
    case False
    then have a: "?a = ilog2 x - 52" and l: "ilog2 r + 1 \<le> ilog2 x" by simp_all
    have "r < 2 powi (ilog2 r + 1)" using ilog2_bounds [OF assms(1)] by simp
    also have "\<dots> \<le> 2 powi ilog2 x" using l by (intro power_int_increasing) simp_all
    finally have r: "r < 2 powi ilog2 x" .
    have p: "(2 :: rat) powi ilog2 x = of_int (2 ^ nat (ilog2 x - ?a)) * 2 powi ?a"
      by (rule power_int_multiple) (simp add: a)
    have "2 powi ilog2 x \<le> x" using ilog2_bounds [OF x] by simp
    then have "of_int (2 ^ nat (ilog2 x - ?a)) * 2 powi ?a \<le> x" using p by simp
    then have "of_int (2 ^ nat (ilog2 x - ?a)) * (2 :: rat) powi ?a
       \<le> of_int (round_half_even (x / 2 powi ?a)) * 2 powi ?a"
      by (rule grid_ge [OF power_int_pos])
    then have "2 powi ilog2 x \<le> rnd x" using p rx by simp
    then show ?thesis using r by simp
  qed
qed

lemma rnd_binade:
  assumes "2 powi e \<le> x" and "x < 2 powi (e + 1)"
  shows "rnd x = of_int (round_half_even (x / 2 powi max (e - 52) (- 1074))) *
                 2 powi max (e - 52) (- 1074)"
proof -
  have "0 < x" using assms(1) power_int_pos [of e] by linarith
  then show ?thesis using ilog2_eq [OF assms] by (simp add: rnd_def ulp_def)
qed

lemma floor_divide_numeral: "\<lfloor>(numeral a :: rat) / numeral b\<rfloor> = numeral a div numeral b"
  using floor_divide_of_int_eq [of "numeral a" "numeral b", where ?'a = rat] by simp

lemma rnd_0: "rnd 0 = 0"
  by (simp add: rnd_def)

lemma rnd_1: "rnd 1 = 1"
  using rnd_binade [of 0 1] by (simp add: round_half_even_def Let_def floor_divide_numeral)

lemma rnd_100: "rnd 100 = 100"
  using rnd_binade [of 6 100] by (simp add: round_half_even_def Let_def floor_divide_numeral)

lemma rnd_80: "rnd 80 = 80"
  using rnd_binade [of 6 80] by (simp add: round_half_even_def Let_def floor_divide_numeral)

lemma rnd_20: "rnd 20 = 20"
  using rnd_binade [of 4 20] by (simp add: round_half_even_def Let_def floor_divide_numeral)

lemma rnd_four_fifths: "rnd (4 / 5) = 3602879701896397 / 4503599627370496"
  using rnd_binade [of "- 1" "4 / 5"] by (simp add: round_half_even_def Let_def floor_divide_numeral)

lemma rnd_eighty: "rnd (3602879701896397 / 4503599627370496 * 100) = 80"
  using rnd_binade [of 6 "3602879701896397 / 4503599627370496 * 100"]
  by (simp add: round_half_even_def Let_def floor_divide_numeral)

lemma rnd_2_1023: "rnd (2 ^ 1023) = 2 ^ 1023"
  using rnd_binade [of 1023 "2 ^ 1023"] by (simp add: round_half_even_def Let_def floor_divide_numeral)

lemma rnd_2_1024: "rnd (2 ^ 1024) = 2 ^ 1024"
  using rnd_binade [of 1024 "2 ^ 1024"] by (simp add: round_half_even_def Let_def)


lemma rnd_power2:
  assumes "- 1074 \<le> n"
  shows "rnd (2 powi n) = 2 powi n"
proof -
  let ?a = "max (n - 52) (- 1074)"
  have "(2 :: rat) powi n < 2 powi (n + 1)" by (intro power_int_strict_increasing) simp_all
  then have r: "rnd (2 powi n) = of_int (round_half_even (2 powi n / 2 powi ?a)) * 2 powi ?a"
    using rnd_binade [of n "2 powi n"] by simp
  have a: "?a \<le> n" using assms by simp
  have "(2 :: rat) powi n / 2 powi ?a = of_int (2 ^ nat (n - ?a))"
    using power_int_multiple [OF a] by simp
  then have "round_half_even (2 powi n / 2 powi ?a) = 2 ^ nat (n - ?a)"
    by (simp only: round_half_even_of_int)
  then show ?thesis using r power_int_multiple [OF a] by simp
qed

lemma rnd_idem:
  assumes "0 \<le> x"
  shows "rnd (rnd x) = rnd x"
proof (cases "x = 0")
  case True
  then show ?thesis by (simp add: rnd_0)
next
  case False
  then have x: "0 < x" using assms by simp
  let ?e = "ilog2 x"
  let ?a = "max (?e - 52) (- 1074)"
  let ?K = "round_half_even (x / 2 powi ?a)"
  have r: "rnd x = of_int ?K * 2 powi ?a" using False by (simp add: rnd_def ulp_def)
  have b: "2 powi ?e \<le> x" "x < 2 powi (?e + 1)" using ilog2_bounds [OF x] by simp_all
  have div: "rnd x / 2 powi ?a = of_int ?K" by (simp add: r)
  show ?thesis
  proof (cases "?a \<le> ?e")
    case True
    have p: "(2 :: rat) powi ?e = of_int (2 ^ nat (?e - ?a)) * 2 powi ?a"
      using power_int_multiple [OF True] .
    have "of_int (2 ^ nat (?e - ?a)) * (2 :: rat) powi ?a \<le> of_int ?K * 2 powi ?a"
      using grid_ge [OF power_int_pos, of "2 ^ nat (?e - ?a)" ?a x] b(1) p by simp
    then have lo: "2 powi ?e \<le> rnd x" using p r by simp
    have a1: "?a \<le> ?e + 1" using True by simp
    have q: "(2 :: rat) powi (?e + 1) = of_int (2 ^ nat (?e + 1 - ?a)) * 2 powi ?a"
      using power_int_multiple [OF a1] .
    have "of_int ?K * (2 :: rat) powi ?a \<le> of_int (2 ^ nat (?e + 1 - ?a)) * 2 powi ?a"
      using grid_le [OF power_int_pos, of x "2 ^ nat (?e + 1 - ?a)" ?a] b(2) q by simp
    then have hi: "rnd x \<le> 2 powi (?e + 1)" using q r by simp
    show ?thesis
    proof (cases "rnd x = 2 powi (?e + 1)")
      case True
      have "- 1074 \<le> ?e + 1" using \<open>?a \<le> ?e\<close> by simp
      then show ?thesis using rnd_power2 [of "?e + 1"] True by simp
    next
      case False
      then have "rnd x < 2 powi (?e + 1)" using hi by simp
      then have "rnd (rnd x) = of_int (round_half_even (rnd x / 2 powi ?a)) * 2 powi ?a"
        using rnd_binade [OF lo] by simp
      also have "\<dots> = of_int (round_half_even (of_int ?K)) * 2 powi ?a" by (simp only: div)
      also have "\<dots> = of_int ?K * 2 powi ?a" by (simp only: round_half_even_of_int)
      also have "\<dots> = rnd x" by (simp only: r)
      finally show ?thesis .
    qed
  next
    case False
    then have a: "?a = - 1074" and e: "?e + 1 \<le> - 1074" by simp_all
    have "x < 2 powi (?e + 1)" using b(2) .
    also have "\<dots> \<le> 2 powi (- 1074)" using e by (intro power_int_increasing) simp_all
    finally have "x \<le> of_int 1 * 2 powi ?a" using a by simp
    then have "of_int ?K * (2 :: rat) powi ?a \<le> of_int 1 * 2 powi ?a"
      by (rule grid_le [OF power_int_pos])
    then have "(of_int ?K :: rat) \<le> of_int 1"
      using power_int_pos [of ?a] by (simp add: mult_le_cancel_right)
    then have k1: "?K \<le> 1" by (simp only: of_int_le_iff)
    have "0 \<le> x / 2 powi ?a" using x by simp
    then have "0 \<le> \<lfloor>x / 2 powi ?a\<rfloor>" by simp
    then have k0: "0 \<le> ?K" using round_half_even_floor [of "x / 2 powi ?a"] by linarith
    have "?K = 0 \<or> ?K = 1" using k0 k1 by linarith
    then show ?thesis
    proof
      assume "?K = 0"
      then show ?thesis using r by (simp add: rnd_0)
    next
      assume "?K = 1"
      then have e1: "rnd x = 2 powi (- 1074)" using r a by simp
      have p2: "rnd (2 powi (- 1074)) = 2 powi (- 1074)" by (rule rnd_power2) simp
      show ?thesis by (simp only: e1 p2)
    qed
  qed
qed

lemma to_float_is_float:
  assumes "0 \<le> x"
  shows "is_float (to_float s x)"
  using rnd_nonneg [OF assms] rnd_idem [OF assms] by (simp add: to_float_def)

lemma float_add_is_float: "is_float (float_add a b)"
  by (cases a; cases b) (simp_all add: Let_def rnd_0 to_float_is_float)

lemma float_mul_is_float:
  assumes "is_float a" and "is_float b"
  shows "is_float (float_mul a b)"
  using assms by (cases a; cases b) (simp_all add: to_float_is_float)

lemma float_div_is_float:
  assumes "is_float a" and "is_float b" and "float_div a b = Inr q"
  shows "is_float q"
  using assms by (cases a; cases b) (auto simp: to_float_is_float rnd_0 split: if_splits)

lemma coverage_pct_is_float:
  assumes "is_float (covered s)" and "coverage_pct s = Inr p"
  shows "is_float p"
proof (cases "float_eq (total_cov s) (Finite False 0)")
  case True
  then show ?thesis using assms(2) by (auto simp: coverage_pct_def rnd_0)
next
  case False
  then obtain q where q: "float_div (covered s) (total_cov s) = Inr q"
    and p: "p = float_mul q (Finite False 100)"
    using assms(2) by (auto simp: coverage_pct_def split: sum.splits)
  have "is_float (total_cov s)" by (simp add: total_cov_def float_add_is_float)
  then have "is_float q" using float_div_is_float [OF assms(1) _ q] by simp
  moreover have "is_float (Finite False 100)" by (simp add: rnd_100)
  ultimately show ?thesis unfolding p by (rule float_mul_is_float)
qed

lemma rnd_sum_ge:
  assumes "0 \<le> x" and "0 \<le> y" and "rnd x = x"
  shows "x \<le> rnd (x + y)"
proof (cases "x = 0")
  case True
  then show ?thesis using rnd_nonneg [of "x + y"] assms(2) by simp
next
  case False
  then have "0 < x" using assms(1) by simp
  then show ?thesis using rnd_ge [of x "x + y"] assms(2,3) by simp
qed

lemma rnd_sum_pos:
  assumes "0 \<le> x" and "0 \<le> y" and "rnd x = x" and "rnd y = y" and "x + y \<noteq> 0"
  shows "0 < rnd (x + y)"
proof (cases "x = 0")
  case True
  then show ?thesis using assms by simp
next
  case False
  then show ?thesis using rnd_sum_ge [OF assms(1,2,3)] assms(1) by simp
qed

lemma rnd_le_1:
  assumes "0 \<le> z" and "z \<le> 1"
  shows "rnd z \<le> 1"
proof (cases "z = 0")
  case True
  then show ?thesis by (simp add: rnd_0)
next
  case False
  then show ?thesis using rnd_le [of z 1] assms rnd_1 by simp
qed

lemma rnd_le_100:
  assumes "0 \<le> z" and "z \<le> 100"
  shows "rnd z \<le> 100"
proof (cases "z = 0")
  case True
  then show ?thesis by (simp add: rnd_0)
next
  case False
  then show ?thesis using rnd_le [of z 100] assms rnd_100 by simp
qed

lemma finite_pct_range:
  assumes "0 \<le> x" and "0 \<le> y" and "rnd x = x" and "rnd y = y" and "x + y \<noteq> 0"
  shows "0 \<le> rnd (rnd (x / rnd (x + y)) * 100) \<and> rnd (rnd (x / rnd (x + y)) * 100) \<le> 100"
proof -
  let ?t = "rnd (x + y)"
  have t: "0 < ?t" using rnd_sum_pos [OF assms] .
  have xt: "x \<le> ?t" using rnd_sum_ge [OF assms(1,2,3)] .
  have q0: "0 \<le> x / ?t" using assms(1) t by simp
  have q1: "x / ?t \<le> 1" using xt t by simp
  have r0: "0 \<le> rnd (x / ?t)" using rnd_nonneg [OF q0] .
  have r1: "rnd (x / ?t) \<le> 1" using rnd_le_1 [OF q0 q1] .
  have p0: "0 \<le> rnd (x / ?t) * 100" using r0 by simp
  have p1: "rnd (x / ?t) * 100 \<le> 100" using r1 by simp
  show ?thesis using rnd_nonneg [OF p0] rnd_le_100 [OF p0 p1] by simp
qed

lemma coverage_pct_infinite:
  assumes "float_le (Finite False 0) (missed s)" and "covered s = Infinity False"
  shows "coverage_pct s = Inr NaN"
  using assms by (cases "missed s") (simp_all add: coverage_pct_def total_cov_def)

lemma coverage_pct_finite_infinite:
  assumes "covered s = Finite a x" and "missed s = Infinity False"
  shows "coverage_pct s = Inr (Finite a 0)"
  using assms by (simp add: coverage_pct_def total_cov_def to_float_def rnd_0)

lemma coverage_pct_finite:
  assumes "covered s = Finite a x" and "missed s = Finite b y"
    and "0 \<le> x" and "0 \<le> y" and "rnd x = x" and "rnd y = y"
    and "a \<longrightarrow> x = 0" and "b \<longrightarrow> y = 0"
  shows "coverage_pct s =
     Inr (if x + y = 0 then Finite False 0
          else if 2 ^ 1024 \<le> rnd (x + y) then Finite a 0
          else Finite a (rnd (rnd (x / rnd (x + y)) * 100)))"
proof -
  have sx: "signed a x = x" and sy: "signed b y = y" using assms(7,8) by (auto simp: signed_def)
  have nn: "\<not> x + y < 0" and ab: "\<bar>x + y\<bar> = x + y" using assms(3,4) by simp_all
  have tot: "total_cov s = (if x + y = 0 then Finite (a \<and> b) 0 else to_float False (x + y))"
    by (simp add: total_cov_def assms(1,2) sx sy nn ab Let_def)
  show ?thesis
  proof (cases "x + y = 0")
    case True
    then show ?thesis by (simp add: coverage_pct_def tot signed_def)
  next
    case False
    note nz = this
    show ?thesis
    proof (cases "2 ^ 1024 \<le> rnd (x + y)")
      case True
      then show ?thesis
        using nz by (simp add: coverage_pct_def tot to_float_def assms(1) rnd_0)
    next
      case False
      let ?t = "rnd (x + y)"
      have t: "0 < ?t" using rnd_sum_pos [OF assms(3,4,5,6) nz] .
      have xt: "x \<le> ?t" using rnd_sum_ge [OF assms(3,4,5)] .
      have q0: "0 \<le> x / ?t" using assms(3) t by simp
      have q1: "x / ?t \<le> 1" using xt t by simp
      have "rnd (x / ?t) \<le> 1" using rnd_le_1 [OF q0 q1] .
      then have q: "\<not> 2 ^ 1024 \<le> rnd (x / ?t)" by simp
      have "rnd (rnd (x / ?t) * 100) \<le> 100"
        using finite_pct_range [OF assms(3,4,5,6) nz] by simp
      then have p: "\<not> 2 ^ 1024 \<le> rnd (rnd (x / ?t) * 100)" by simp
      have tt: "total_cov s = Finite False ?t" using nz False by (simp add: tot to_float_def)
      have "float_div (covered s) (total_cov s) = Inr (Finite a (rnd (x / ?t)))"
        using t q by (simp add: tt assms(1) to_float_def)
      moreover have "\<not> float_eq (total_cov s) (Finite False 0)"
        using t by (simp add: tt signed_def)
      moreover have "float_mul (Finite a (rnd (x / ?t))) (Finite False 100) =
          Finite a (rnd (rnd (x / ?t) * 100))"
        using p by (simp add: to_float_def)
      ultimately show ?thesis using nz False by (simp add: coverage_pct_def)
    qed
  qed
qed

subsection \<open>The coverage percentage\<close>

text \<open>
  C3. For floats \<open>covered\<close> and \<open>missed\<close> that are not negative (so neither is NaN):
  the total compares equal to 0 exactly when both do, and then the percentage is
  \<^verbatim>\<open>0.0\<close> and no division is made; no \<^verbatim>\<open>ZeroDivisionError\<close> is raised in any case; the
  percentage is a float, it is NaN when \<open>covered\<close> is infinite, and otherwise it lies
  between 0 and 100. For finite values \<open>x\<close> and \<open>y\<close> with a non-zero sum it is the
  float expression \<^verbatim>\<open>(x / (x + y)) * 100\<close> with each operation rounded to the nearest
  double, unless the sum \<open>x + y\<close> overflows to infinity, when it is zero.
\<close>

theorem coverage_pct_spec:
  assumes "is_float (covered s)" and "is_float (missed s)"
    and "float_le (Finite False 0) (covered s)" and "float_le (Finite False 0) (missed s)"
  shows "(float_eq (total_cov s) (Finite False 0) \<longleftrightarrow>
        float_eq (covered s) (Finite False 0) \<and> float_eq (missed s) (Finite False 0)) \<and>
     (float_eq (total_cov s) (Finite False 0) \<longrightarrow> coverage_pct s = Inr (Finite False 0)) \<and>
     (\<exists>p. coverage_pct s = Inr p \<and> is_float p \<and>
        (if covered s = Infinity False then p = NaN
         else float_le (Finite False 0) p \<and> float_le p (Finite False 100))) \<and>
     (\<forall>a x b y. covered s = Finite a x \<and> missed s = Finite b y \<longrightarrow>
        coverage_pct s =
          Inr (if x + y = 0 then Finite False 0
               else if 2 ^ 1024 \<le> rnd (x + y) then Finite a 0
               else Finite a (rnd (rnd (x / rnd (x + y)) * 100))))"
proof -
  let ?c = "covered s" and ?m = "missed s"
  have zero: "float_eq (total_cov s) (Finite False 0) \<longrightarrow> coverage_pct s = Inr (Finite False 0)"
    by (simp add: coverage_pct_def)
  consider (ff) a x b y where "?c = Finite a x" "?m = Finite b y"
    | (fi) a x where "?c = Finite a x" "?m = Infinity False"
    | (i) "?c = Infinity False"
    using assms(3,4) by (cases ?c; cases ?m) auto
  then show ?thesis
  proof cases
    case ff
    have x: "0 \<le> x" "rnd x = x" "a \<longrightarrow> x = 0"
      using assms(1,3) ff(1) by (auto simp: signed_def)
    have y: "0 \<le> y" "rnd y = y" "b \<longrightarrow> y = 0"
      using assms(2,4) ff(2) by (auto simp: signed_def)
    have f: "coverage_pct s =
       Inr (if x + y = 0 then Finite False 0
            else if 2 ^ 1024 \<le> rnd (x + y) then Finite a 0
            else Finite a (rnd (rnd (x / rnd (x + y)) * 100)))"
      using coverage_pct_finite [OF ff x(1) y(1) x(2) y(2) x(3) y(3)] .
    have sx: "signed a x = x" and sy: "signed b y = y" using x(3) y(3) by (auto simp: signed_def)
    have tot: "total_cov s = (if x + y = 0 then Finite (a \<and> b) 0 else to_float False (x + y))"
      using x(1) y(1) by (simp add: total_cov_def ff sx sy Let_def)
    have pos: "x + y \<noteq> 0 \<Longrightarrow> 0 < rnd (x + y)"
      using rnd_sum_pos [OF x(1) y(1) x(2) y(2)] .
    have iff: "float_eq (total_cov s) (Finite False 0) \<longleftrightarrow>
        float_eq ?c (Finite False 0) \<and> float_eq ?m (Finite False 0)"
    proof (cases "x + y = 0")
      case True
      then have "x = 0 \<and> y = 0" using x(1) y(1) by simp
      then show ?thesis using True by (simp add: tot ff signed_def)
    next
      case False
      then have "\<not> (x = 0 \<and> y = 0)" by auto
      moreover have "\<not> float_eq (total_cov s) (Finite False 0)"
        using False pos by (simp add: tot to_float_def signed_def)
      ultimately show ?thesis using sx sy by (auto simp: ff signed_def)
    qed
    have range: "\<exists>p. coverage_pct s = Inr p \<and> is_float p \<and>
        (if ?c = Infinity False then p = NaN
         else float_le (Finite False 0) p \<and> float_le p (Finite False 100))"
    proof (cases "x + y = 0 \<or> 2 ^ 1024 \<le> rnd (x + y)")
      case True
      then show ?thesis
        using f coverage_pct_is_float [OF assms(1)] by (auto simp: ff(1) signed_def)
    next
      case False
      then have nz: "x + y \<noteq> 0" by simp
      let ?p = "rnd (rnd (x / rnd (x + y)) * 100)"
      have r: "0 \<le> ?p" "?p \<le> 100"
        using finite_pct_range [OF x(1) y(1) x(2) y(2) nz] by simp_all
      have "a \<longrightarrow> ?p = 0" using x(3) by (simp add: rnd_0)
      then have "float_le (Finite False 0) (Finite a ?p) \<and> float_le (Finite a ?p) (Finite False 100)"
        using r by (auto simp: signed_def)
      then show ?thesis
        using f False coverage_pct_is_float [OF assms(1)] by (simp add: ff(1))
    qed
    show ?thesis using zero iff range f ff by simp
  next
    case fi
    have f: "coverage_pct s = Inr (Finite a 0)" using coverage_pct_finite_infinite [OF fi] .
    have "total_cov s = Infinity False" by (simp add: total_cov_def fi)
    then show ?thesis using f zero by (simp add: fi signed_def rnd_0)
  next
    case i
    have f: "coverage_pct s = Inr NaN" using coverage_pct_infinite [OF assms(4) i] .
    have "\<not> float_eq (total_cov s) (Finite False 0)"
      by (cases ?m) (simp_all add: total_cov_def i)
    then show ?thesis using f by (simp add: i)
  qed
qed

theorem coverage_pct_spec_witness:
  "is_float (Finite False 80) \<and> is_float (Finite False 20) \<and>
   float_le (Finite False 0) (Finite False 80) \<and> float_le (Finite False 0) (Finite False 20) \<and>
   coverage_pct \<lparr>covered = Finite False 80, missed = Finite False 20\<rparr> = Inr (Finite False 80) \<and>
   coverage_pct \<lparr>covered = Finite False 0, missed = Finite False 0\<rparr> = Inr (Finite False 0)"
proof -
  have a: "is_float (Finite False 80)" "is_float (Finite False 20)" "is_float (Finite False 0)"
    by (simp_all add: rnd_80 rnd_20 rnd_0)
  have b: "float_le (Finite False 0) (Finite False 80)" "float_le (Finite False 0) (Finite False 20)"
    "float_le (Finite False 0) (Finite False 0)"
    by (simp_all add: signed_def)
  have c: "coverage_pct \<lparr>covered = Finite False 80, missed = Finite False 20\<rparr> = Inr (Finite False 80)"
    using coverage_pct_spec [of "\<lparr>covered = Finite False 80, missed = Finite False 20\<rparr>"] a b
    by (auto simp add: rnd_100 rnd_four_fifths rnd_eighty [simplified])
  have d: "coverage_pct \<lparr>covered = Finite False 0, missed = Finite False 0\<rparr> = Inr (Finite False 0)"
    using coverage_pct_spec [of "\<lparr>covered = Finite False 0, missed = Finite False 0\<rparr>"] a b
    by simp
  show ?thesis using a b c d by simp
qed

theorem coverage_pct_range_counterexample:
  "is_float (Infinity False) \<and> is_float (Finite False 0) \<and> is_float (Finite False (2 ^ 1023)) \<and>
   float_le (Finite False 0) (Infinity False) \<and>
   total_cov \<lparr>covered = Infinity False, missed = Finite False 0\<rparr> = Infinity False \<and>
   coverage_pct \<lparr>covered = Infinity False, missed = Finite False 0\<rparr> = Inr NaN \<and>
   \<not> float_le (Finite False 0) NaN \<and> \<not> float_le NaN (Finite False 100) \<and>
   float_le (Finite False 0) (Finite False (2 ^ 1023)) \<and>
   total_cov \<lparr>covered = Finite False (2 ^ 1023), missed = Finite False (2 ^ 1023)\<rparr>
     = Infinity False \<and>
   coverage_pct \<lparr>covered = Finite False (2 ^ 1023), missed = Finite False (2 ^ 1023)\<rparr>
     = Inr (Finite False 0) \<and>
   (2 ^ 1023 / (2 ^ 1023 + 2 ^ 1023) * 100 :: rat) = 50"
  by (simp add: coverage_pct_def total_cov_def to_float_def signed_def rnd_0
      rnd_2_1023 [simplified] rnd_2_1024 [simplified])

end
